theory Spec2Isabelle
  imports Complex_Main "HOL-Library.Log_Nat"
begin

section \<open>Strings and paths\<close>

text \<open>
  The worker of \<^verbatim>\<open>image_optimizer.pyw\<close> handles \<^verbatim>\<open>pathlib.Path\<close> values and Python
  strings. A path is its anchor (drive and root, empty for a relative path) and the list
  of its components; \<^verbatim>\<open>p / name\<close> with a single component appends it, \<^verbatim>\<open>p.parent\<close>
  drops the last component (and is \<^verbatim>\<open>p\<close> itself when there is none), \<^verbatim>\<open>p.name\<close> is the last
  component or the empty string. \<^verbatim>\<open>str(p)\<close> is written with the separator \<^verbatim>\<open>/\<close>.
\<close>

datatype path = Path (anchor: string) (parts: "string list")

definition name :: "path \<Rightarrow> string" where
  "name p = (if parts p = [] then [] else last (parts p))"

definition parent :: "path \<Rightarrow> path" where
  "parent p = Path (anchor p) (butlast (parts p))"

definition child :: "path \<Rightarrow> string \<Rightarrow> path" where
  "child p n = Path (anchor p) (parts p @ [n])"

fun join :: "string \<Rightarrow> string list \<Rightarrow> string" where
  "join sep [] = []"
| "join sep [x] = x"
| "join sep (x # y # ys) = x @ sep @ join sep (y # ys)"

definition str_path :: "path \<Rightarrow> string" where
  "str_path p =
     (if parts p = [] then (if anchor p = [] then ''.'' else anchor p)
      else anchor p @ join ''/'' (parts p))"

text \<open>\<^verbatim>\<open>s.rfind(c)\<close>: the last index of \<^verbatim>\<open>c\<close> in \<^verbatim>\<open>s\<close>, or \<^verbatim>\<open>-1\<close>.\<close>

definition rfind :: "string \<Rightarrow> char \<Rightarrow> int" where
  "rfind s c =
     (if c \<in> set s then int (length s) - 1 - int (length (takeWhile (\<lambda>x. x \<noteq> c) (rev s)))
      else - 1)"

text \<open>
  \<^verbatim>\<open>PurePath.suffix\<close> and \<^verbatim>\<open>PurePath.stem\<close>: the name is split at its last dot, unless
  that dot is the first or the last character of the name.
\<close>

definition suffix :: "path \<Rightarrow> string" where
  "suffix p =
     (let n = name p; i = rfind n (CHR ''.'')
      in if 0 < i \<and> i < int (length n) - 1 then drop (nat i) n else [])"

definition stem :: "path \<Rightarrow> string" where
  "stem p =
     (let n = name p; i = rfind n (CHR ''.'')
      in if 0 < i \<and> i < int (length n) - 1 then take (nat i) n else n)"

text \<open>\<^verbatim>\<open>str.lower\<close> on the letters \<^verbatim>\<open>A\<close> to \<^verbatim>\<open>Z\<close>; other characters are kept.\<close>

definition lower_char :: "char \<Rightarrow> char" where
  "lower_char c =
     (let k = (of_char c :: nat) in if 65 \<le> k \<and> k \<le> 90 then char_of (k + 32) else c)"

definition lower :: "string \<Rightarrow> string" where
  "lower s = map lower_char s"

text \<open>\<^verbatim>\<open>str(n)\<close> for an integer: decimal digits, with a minus sign when negative.\<close>

function str_nat :: "nat \<Rightarrow> string" where
  "str_nat n =
     (if n < 10 then [''0123456789'' ! n]
      else str_nat (n div 10) @ [''0123456789'' ! (n mod 10)])"
  by pat_completeness auto
termination
  by (relation "measure id") auto

definition str_int :: "int \<Rightarrow> string" where
  "str_int i = (if i < 0 then ''-'' @ str_nat (nat (- i)) else str_nat (nat i))"

text \<open>\<^verbatim>\<open>xs.insert(i, x)\<close> for a non-negative index.\<close>

definition list_insert :: "nat \<Rightarrow> 'a \<Rightarrow> 'a list \<Rightarrow> 'a list" where
  "list_insert i x xs = take i xs @ x # drop i xs"

section \<open>Constants and the worker's configuration\<close>

definition SUPPORTED_EXTENSIONS :: "string list" where
  "SUPPORTED_EXTENSIONS = [''.jpg'', ''.jpeg'', ''.png'', ''.webp'']"

definition OUTPUT_DIR_NAME :: string where
  "OUTPUT_DIR_NAME = ''webp_optimized''"

definition ENCODER_NAME :: string where
  "ENCODER_NAME = ''cwebp''"

text \<open>The fields that \<^verbatim>\<open>Worker.__init__\<close> stores.\<close>

record Worker =
  folders :: "path list"
  quality :: int
  use_cbz :: bool
  replace_originals :: bool
  skip_webp :: bool

section \<open>The encoder command\<close>

definition build_cwebp_command :: "Worker \<Rightarrow> path \<Rightarrow> path \<Rightarrow> string list" where
  "build_cwebp_command self source target =
     (let cmd = [ENCODER_NAME, ''-q'', str_int (quality self), str_path source, ''-o'',
                 str_path target]
      in if lower (suffix source) = ''.png'' \<and> quality self = 100
         then list_insert 1 ''-lossless'' cmd else cmd)"

section \<open>Floating-point arithmetic of the progress percentage\<close>

text \<open>
  \<^verbatim>\<open>_emit_progress\<close> computes \<^verbatim>\<open>int((processed / total) * 100)\<close>: a true division of two
  integers, a multiplication of the resulting double by 100, and a truncation. A double
  is written as mantissa and binary exponent, \<open>Dbl m e\<close> standing for \<open>m * 2 ^ e\<close>,
  or as one of the two infinities. Results are rounded to 53 significant bits, ties to
  even, with exponents no smaller than \<open>-1074\<close> (the subnormal range); a true division
  whose rounded result is not below \<open>2 ^ 1024\<close> raises \<^verbatim>\<open>OverflowError\<close>, a
  multiplication overflows to infinity, and \<^verbatim>\<open>int\<close> of an infinity raises. The third
  exception of the model, \<^verbatim>\<open>OSError\<close> with the text of \<^verbatim>\<open>str(exc)\<close>, is what a failing call
  of the file system raises.
\<close>

datatype py_error = OverflowError | ZeroDivisionError | OSError string

datatype pyfloat = Dbl int int | Pos_inf | Neg_inf

text \<open>The integer nearest to \<open>n / d\<close>, ties to the even one (\<open>0 < d\<close>).\<close>

definition round_half_even :: "int \<Rightarrow> int \<Rightarrow> int" where
  "round_half_even n d =
     (let q = n div d; r = n mod d
      in if 2 * r < d then q else if d < 2 * r then q + 1
         else if even q then q else q + 1)"

text \<open>\<open>\<lfloor>log\<^sub>2 (n / d)\<rfloor>\<close> for positive \<open>n\<close> and \<open>d\<close>, from the bit lengths.\<close>

definition floor_log2 :: "int \<Rightarrow> int \<Rightarrow> int" where
  "floor_log2 n d =
     (let k = bitlen n - bitlen d
      in if d * 2 ^ nat k \<le> n * 2 ^ nat (- k) then k else k - 1)"

text \<open>
  The positive rational \<open>n / d\<close> rounded to a double, before the overflow check:
  mantissa and exponent.
\<close>

definition round_double :: "int \<Rightarrow> int \<Rightarrow> int \<times> int" where
  "round_double n d =
     (let e = max (floor_log2 n d - 52) (- 1074)
      in (round_half_even (n * 2 ^ nat (- e)) (d * 2 ^ nat e), e))"

text \<open>\<open>m * 2 ^ e < 2 ^ 1024\<close>, on integers.\<close>

definition in_double_range :: "int \<Rightarrow> int \<Rightarrow> bool" where
  "in_double_range m e = (m * 2 ^ nat e < 2 ^ 1024 * 2 ^ nat (- e))"

text \<open>\<^verbatim>\<open>a / b\<close> on integers.\<close>

definition int_truediv :: "int \<Rightarrow> int \<Rightarrow> py_error + pyfloat" where
  "int_truediv a b =
     (if b = 0 then Inl ZeroDivisionError
      else if a = 0 then Inr (Dbl 0 0)
      else (case round_double \<bar>a\<bar> \<bar>b\<bar> of (m, e) \<Rightarrow>
              if in_double_range m e then Inr (Dbl (sgn a * sgn b * m) e)
              else Inl OverflowError))"

text \<open>\<^verbatim>\<open>x * 100\<close> on a double.\<close>

definition float_mul_100 :: "pyfloat \<Rightarrow> pyfloat" where
  "float_mul_100 x =
     (case x of
        Pos_inf \<Rightarrow> Pos_inf
      | Neg_inf \<Rightarrow> Neg_inf
      | Dbl m e \<Rightarrow>
          if m = 0 then Dbl 0 0
          else (case round_double (\<bar>m\<bar> * 100 * 2 ^ nat e) (2 ^ nat (- e)) of (m', e') \<Rightarrow>
                  if in_double_range m' e' then Dbl (sgn m * m') e'
                  else if 0 < m then Pos_inf else Neg_inf))"

text \<open>\<^verbatim>\<open>int(x)\<close> on a double: truncation towards zero.\<close>

definition py_int :: "pyfloat \<Rightarrow> py_error + int" where
  "py_int x =
     (case x of
        Pos_inf \<Rightarrow> Inl OverflowError
      | Neg_inf \<Rightarrow> Inl OverflowError
      | Dbl m e \<Rightarrow> Inr (sgn m * ((\<bar>m\<bar> * 2 ^ nat e) div 2 ^ nat (- e))))"

text \<open>\<^verbatim>\<open>s.strip()\<close>: white space is removed at both ends.\<close>

definition isspace :: "char \<Rightarrow> bool" where
  "isspace c =
     (let k = (of_char c :: nat)
      in (9 \<le> k \<and> k \<le> 13) \<or> (28 \<le> k \<and> k \<le> 32) \<or> k = 133 \<or> k = 160)"

definition strip :: "string \<Rightarrow> string" where
  "strip s = rev (dropWhile isspace (rev (dropWhile isspace s)))"

section \<open>Data model\<close>

record FolderBatch =
  folder :: path
  all_images :: "path list"
  convertible_images :: "path list"
  skipped_webp :: "path list"

text \<open>
  The dataclass \<^verbatim>\<open>FolderSummary\<close>; its field \<^verbatim>\<open>folder\<close> is written \<open>folder_str\<close> here,
  the name \<open>folder\<close> being the batch's. Elapsed times are differences of clock
  readings, which are inputs of the model.
\<close>

record FolderSummary =
  folder_str :: string
  converted :: int
  skipped_existing :: int
  errors :: "string list"
  bytes_original :: int
  bytes_converted :: int
  archive_size :: "int option"
  archive_path :: "string option"
  duration_seconds :: real

text \<open>
  \<^verbatim>\<open>dataclasses.asdict\<close> turns a summary into a dictionary from its field names to its
  values, in the order of the fields.
\<close>

datatype pyval = PyInt int | PyStr string | PyFloat real | PyStrList "string list" | PyNone

definition asdict :: "FolderSummary \<Rightarrow> (string \<times> pyval) list" where
  "asdict summary =
     [(''folder'', PyStr (folder_str summary)),
      (''converted'', PyInt (converted summary)),
      (''skipped_existing'', PyInt (skipped_existing summary)),
      (''errors'', PyStrList (errors summary)),
      (''bytes_original'', PyInt (bytes_original summary)),
      (''bytes_converted'', PyInt (bytes_converted summary)),
      (''archive_size'', (case archive_size summary of None \<Rightarrow> PyNone | Some n \<Rightarrow> PyInt n)),
      (''archive_path'', (case archive_path summary of None \<Rightarrow> PyNone | Some a \<Rightarrow> PyStr a)),
      (''duration_seconds'', PyFloat (duration_seconds summary))]"

text \<open>
  The dictionary that \<^verbatim>\<open>_build_run_summary\<close> returns, and its entry \<^verbatim>\<open>totals\<close>. The
  fields of the totals carry the names of the local variables they are built from.
\<close>

record Totals =
  total_converted :: int
  total_skipped :: int
  total_errors :: int
  total_bytes_original :: int
  total_bytes_converted :: int
  total_bytes_saved :: int
  archives_created :: int

record RunSummary =
  cancelled :: bool
  duration :: real
  total_images :: int
  processed_images :: int
  expected_conversions :: int
  totals :: Totals
  folders_list :: "(string \<times> pyval) list list"

section \<open>Signals and file-system operations\<close>

text \<open>
  What a run does to the outside, in order: the values it emits on its four signals,
  the calls that change the file system or start the encoder (recorded when the call is
  made, whether or not it then fails), and an exception that leaves \<^verbatim>\<open>run\<close>.
\<close>

datatype event =
    Progress int
  | Status string
  | Summary_ready RunSummary
  | Finished
  | Rmtree path
  | Mkdir path
  | Unlink path
  | Move path path
  | Zip_write path "path list"
  | Subprocess "string list"
  | Uncaught py_error

text \<open>
  An exception that no handler catches leaves \<^verbatim>\<open>run\<close>, which then emits nothing more. The
  function in which it is raised ends its trace with it; the value that stands beside
  such a trace is what the function had computed so far, and no caller uses it: a
  caller tests the trace and stops.
\<close>

fun uncaught :: "event \<Rightarrow> bool" where
  "uncaught (Uncaught _) = True"
| "uncaught _ = False"

definition raised :: "event list \<Rightarrow> bool" where
  "raised ev = list_ex uncaught ev"

definition emit_progress :: "int \<Rightarrow> int \<Rightarrow> py_error + event list" where
  "emit_progress processed total' =
     (if total' \<le> 0 then Inr []
      else (case int_truediv processed total' of
              Inl err \<Rightarrow> Inl err
            | Inr x \<Rightarrow>
                (case py_int (float_mul_100 x) of
                   Inl err \<Rightarrow> Inl err
                 | Inr percentage \<Rightarrow> Inr [Progress (min 100 percentage)])))"

section \<open>The environment of a run\<close>

text \<open>
  What the operating system, the clock and the user answer during a run. Each answer
  is indexed by the place that asks: the position of a folder in \<^verbatim>\<open>self.folders\<close> while
  scanning, the position of a batch in the list of batches and of an image in the
  batch's \<^verbatim>\<open>convertible_images\<close> afterwards. An exception is given by the text that
  \<^verbatim>\<open>str(exc)\<close> yields: a call that may fail answers \<open>Some\<close> or \<open>Inl\<close> of that text when
  it raises. \<^verbatim>\<open>Path.exists\<close> raises on an error other than a missing path, and
  \<^verbatim>\<open>Path.iterdir\<close> on a path that cannot be listed; for the scan, \<open>folder_iterdir\<close>
  answers the names of the folder with what \<^verbatim>\<open>is_file\<close> says of each, or the exception
  that the listing or one of these questions raised. Looking up the encoder, reading
  the clock, asking for an interruption and emitting a signal always return.
\<close>

datatype clock_site = Run_start | Folder_start nat | Folder_end nat | Run_end

datatype proc_result =
    Encoder_missing
  | Run_raised string
  | Completed int string

record World =
  which_encoder :: bool
  perf_counter :: "clock_site \<Rightarrow> real"
  interruption_before_folder :: "nat \<Rightarrow> bool"
  interruption_before_image :: "nat \<Rightarrow> nat \<Rightarrow> bool"
  folder_exists :: "nat \<Rightarrow> string + bool"
  folder_iterdir :: "nat \<Rightarrow> string + (string \<times> bool) list"
  outdir_stale :: "nat \<Rightarrow> string + bool"
  rmtree_stale :: "nat \<Rightarrow> string option"
  mkdir_outdir :: "nat \<Rightarrow> string option"
  cleanup_exists :: "nat \<Rightarrow> string + bool"
  cleanup_rmtree :: "nat \<Rightarrow> string option"
  source_stat :: "nat \<Rightarrow> nat \<Rightarrow> int option"
  subprocess_run :: "nat \<Rightarrow> nat \<Rightarrow> proc_result"
  target_exists :: "nat \<Rightarrow> nat \<Rightarrow> string + bool"
  target_stat :: "nat \<Rightarrow> nat \<Rightarrow> int option"
  original_exists :: "nat \<Rightarrow> nat \<Rightarrow> string + bool"
  original_unlink :: "nat \<Rightarrow> nat \<Rightarrow> string option"
  outdir_iterdir :: "nat \<Rightarrow> string + string list"
  optimized_move :: "nat \<Rightarrow> nat \<Rightarrow> string option"
  archive_exists_first :: "nat \<Rightarrow> string + bool"
  archive_unlink :: "nat \<Rightarrow> string option"
  archive_iterdir :: "nat \<Rightarrow> string + string list"
  archive_write :: "nat \<Rightarrow> string option"
  archive_exists_second :: "nat \<Rightarrow> string + bool"
  archive_stat :: "nat \<Rightarrow> string + int"
  archive_exists_third :: "nat \<Rightarrow> string + bool"

section \<open>The worker\<close>

definition quote :: string where
  "quote = [CHR 0x27]"

definition encoder_available :: "World \<Rightarrow> bool \<times> event list" where
  "encoder_available w =
     (if which_encoder w then (True, [])
      else (False,
        [Status (''Unable to find '' @ quote @ ENCODER_NAME @ quote
                 @ '' executable. Please install it and make sure it is on PATH.'')]))"

subsection \<open>Scanning\<close>

definition supported :: "path \<Rightarrow> bool" where
  "supported p = (lower (suffix p) \<in> set SUPPORTED_EXTENSIONS)"

definition scan_folder :: "Worker \<Rightarrow> path \<Rightarrow> (string \<times> bool) list \<Rightarrow> FolderBatch" where
  "scan_folder self fld listing =
     (let all_imgs = filter supported (map (child fld) (map fst (filter snd listing)));
          skipped = (if skip_webp self
                     then filter (\<lambda>p. lower (suffix p) = ''.webp'') all_imgs else []);
          convertible = filter (\<lambda>p. \<not> (skip_webp self \<and> lower (suffix p) = ''.webp'')) all_imgs
      in \<lparr>folder = fld, all_images = all_imgs, convertible_images = convertible,
          skipped_webp = skipped\<rparr>)"

fun prepare_batches_from ::
  "Worker \<Rightarrow> World \<Rightarrow> nat \<Rightarrow> path list \<Rightarrow> FolderBatch list \<times> int \<times> int
   \<Rightarrow> (FolderBatch list \<times> int \<times> int) \<times> event list" where
  "prepare_batches_from self w i [] acc = (acc, [])"
| "prepare_batches_from self w i (fld # rest) (batches, total_convertible, total_files) =
     (case folder_exists w i of
        Inl exc \<Rightarrow> ((batches, total_convertible, total_files), [Uncaught (OSError exc)])
      | Inr present \<Rightarrow>
          if \<not> present
          then (case prepare_batches_from self w (Suc i) rest
                       (batches, total_convertible, total_files) of
                  (r, ev) \<Rightarrow>
                    (r, Status (''Folder '' @ quote @ str_path fld @ quote
                                @ '' does not exist, skipping.'') # ev))
          else (case folder_iterdir w i of
                  Inl exc \<Rightarrow>
                    ((batches, total_convertible, total_files), [Uncaught (OSError exc)])
                | Inr listing \<Rightarrow>
                    (let batch = scan_folder self fld listing
                     in prepare_batches_from self w (Suc i) rest
                          (batches @ [batch],
                           total_convertible + int (length (convertible_images batch)),
                           total_files + int (length (all_images batch))))))"

definition prepare_batches ::
  "Worker \<Rightarrow> World \<Rightarrow> (FolderBatch list \<times> int \<times> int) \<times> event list" where
  "prepare_batches self w = prepare_batches_from self w 0 (folders self) ([], 0, 0)"

subsection \<open>Output directory\<close>

definition prepare_output_dir :: "World \<Rightarrow> nat \<Rightarrow> path \<Rightarrow> (string + path) \<times> event list" where
  "prepare_output_dir w fi fld =
     (let outdir = child fld OUTPUT_DIR_NAME
      in (case outdir_stale w fi of
            Inl exc \<Rightarrow> (Inl exc, [])
          | Inr stale \<Rightarrow>
              (let ev = (if stale then [Rmtree outdir] else [])
               in (case (if stale then rmtree_stale w fi else None) of
                     Some exc \<Rightarrow> (Inl exc, ev)
                   | None \<Rightarrow>
                       (case mkdir_outdir w fi of
                          Some exc \<Rightarrow> (Inl exc, ev @ [Mkdir outdir])
                        | None \<Rightarrow> (Inr outdir, ev @ [Mkdir outdir]))))))"

definition cleanup_dir :: "World \<Rightarrow> nat \<Rightarrow> path \<Rightarrow> event list" where
  "cleanup_dir w fi directory =
     (case cleanup_exists w fi of
        Inl exc \<Rightarrow> [Uncaught (OSError exc)]
      | Inr present \<Rightarrow>
          if \<not> present then []
          else (case cleanup_rmtree w fi of
                  None \<Rightarrow> [Rmtree directory]
                | Some exc \<Rightarrow>
                    [Rmtree directory,
                     Status (''Error removing folder '' @ str_path directory @ '': '' @ exc)]))"

subsection \<open>Converting one image\<close>

definition convert_image ::
  "Worker \<Rightarrow> World \<Rightarrow> nat \<Rightarrow> nat \<Rightarrow> path \<Rightarrow> path
   \<Rightarrow> (bool \<times> int \<times> int \<times> string option) \<times> event list" where
  "convert_image self w fi ii source outdir =
     (let target = child outdir (stem source @ ''.webp'');
          cmd = build_cwebp_command self source target;
          original_size = (case source_stat w fi ii of Some n \<Rightarrow> n | None \<Rightarrow> 0)
      in (case subprocess_run w fi ii of
            Encoder_missing \<Rightarrow>
              ((False, original_size, 0,
                Some (name source @ '': encoder '' @ quote @ ENCODER_NAME @ quote
                      @ '' not found.'')),
               [Subprocess cmd,
                Status (quote @ ENCODER_NAME @ quote @ '' executable not found while converting ''
                        @ name source @ ''.'')])
          | Run_raised exc \<Rightarrow>
              ((False, original_size, 0,
                Some (name source @ '': unexpected error '' @ exc)),
               [Subprocess cmd,
                Status (''Unexpected error converting '' @ name source @ '': '' @ exc)])
          | Completed returncode err_text \<Rightarrow>
              if returncode \<noteq> 0
              then (let stderr = strip (if err_text = [] then ''Unknown error.'' else err_text)
                    in ((False, original_size, 0, Some (name source @ '': '' @ stderr)),
                        [Subprocess cmd,
                         Status (''Error converting '' @ name source @ '': '' @ stderr)]))
              else (let converted_size =
                          (case target_exists w fi ii of
                             Inl exc \<Rightarrow> 0
                           | Inr present \<Rightarrow>
                               if present
                               then (case target_stat w fi ii of Some n \<Rightarrow> n | None \<Rightarrow> 0)
                               else 0)
                    in ((True, original_size, converted_size, None), [Subprocess cmd]))))"

subsection \<open>Output strategies\<close>

fun delete_originals ::
  "World \<Rightarrow> nat \<Rightarrow> nat \<Rightarrow> path list \<Rightarrow> string list \<times> event list" where
  "delete_originals w fi ii [] = ([], [])"
| "delete_originals w fi ii (original # rest) =
     (case original_exists w fi ii of
        Inl exc \<Rightarrow> ([], [Uncaught (OSError exc)])
      | Inr present \<Rightarrow>
          if \<not> present then delete_originals w fi (Suc ii) rest
          else (case delete_originals w fi (Suc ii) rest of
                  (errs, ev) \<Rightarrow>
                    (case original_unlink w fi ii of
                       None \<Rightarrow> (errs, Unlink original # ev)
                     | Some exc \<Rightarrow>
                         (let message = ''Error deleting '' @ name original @ '': '' @ exc
                          in (message # errs, Unlink original # Status message # ev)))))"

fun move_optimized ::
  "World \<Rightarrow> nat \<Rightarrow> path \<Rightarrow> path \<Rightarrow> nat \<Rightarrow> string list \<Rightarrow> string list \<times> event list" where
  "move_optimized w fi fld outdir j [] = ([], [])"
| "move_optimized w fi fld outdir j (n # rest) =
     (case move_optimized w fi fld outdir (Suc j) rest of
        (errs, ev) \<Rightarrow>
          (case optimized_move w fi j of
             None \<Rightarrow> (errs, Move (child outdir n) (child fld n) # ev)
           | Some exc \<Rightarrow>
               (let message = ''Error moving '' @ n @ '': '' @ exc
                in (message # errs,
                    Move (child outdir n) (child fld n) # Status message # ev))))"

definition replace_originals_in ::
  "World \<Rightarrow> nat \<Rightarrow> FolderBatch \<Rightarrow> path \<Rightarrow> string list \<times> event list" where
  "replace_originals_in w fi batch outdir =
     (let ev0 = [Status (''Replacing originals in '' @ quote @ name (folder batch) @ quote
                         @ ''...'')]
      in (case delete_originals w fi 0 (convertible_images batch) of
            (errs1, ev1) \<Rightarrow>
              if raised ev1 then (errs1, ev0 @ ev1)
              else (case outdir_iterdir w fi of
                      Inl exc \<Rightarrow> (errs1, ev0 @ ev1 @ [Uncaught (OSError exc)])
                    | Inr names \<Rightarrow>
                        (case move_optimized w fi (folder batch) outdir 0 names of
                           (errs2, ev2) \<Rightarrow>
                             (errs1 @ errs2, ev0 @ ev1 @ ev2 @ cleanup_dir w fi outdir)))))"

definition create_archive ::
  "Worker \<Rightarrow> World \<Rightarrow> nat \<Rightarrow> FolderBatch \<Rightarrow> path
   \<Rightarrow> (path option \<times> int option \<times> string list) \<times> event list" where
  "create_archive self w fi batch outdir =
     (let archive_ext = (if use_cbz self then ''.cbz'' else ''.zip'');
          archive_label = (if use_cbz self then ''CBZ'' else ''ZIP'');
          archive_name = name (folder batch) @ archive_ext;
          archive = child (parent (folder batch)) archive_name;
          ev0 = [Status (''Creating '' @ archive_label @ '' archive for '' @ quote
                         @ name (folder batch) @ quote @ ''...'')]
      in (case archive_exists_first w fi of
            Inl exc \<Rightarrow> ((None, None, []), ev0 @ [Uncaught (OSError exc)])
          | Inr present \<Rightarrow>
              (case (if present then archive_unlink w fi else None) of
                 Some exc \<Rightarrow>
                   (let message = ''Unable to remove existing archive '' @ archive_name
                                  @ '': '' @ exc
                    in ((None, None, [message]),
                        ev0 @ [Unlink archive, Status message] @ cleanup_dir w fi outdir))
               | None \<Rightarrow>
                   (let ev1 = ev0 @ (if present then [Unlink archive] else []);
                        failed = (\<lambda>exc ev.
                          (let message = ''Error creating archive for '' @ quote
                                         @ name (folder batch) @ quote @ '': '' @ exc
                           in ((None, None, [message]),
                               ev @ [Status message] @ cleanup_dir w fi outdir)));
                        unreadable = (\<lambda>exc.
                          (let message = ''Unable to read archive size for '' @ quote
                                         @ archive_name @ quote @ '': '' @ exc
                           in (None, [message], [Status message])))
                    in (case archive_iterdir w fi of
                          Inl exc \<Rightarrow> failed exc ev1
                        | Inr names \<Rightarrow>
                            (let ev2 = ev1 @ [Zip_write archive
                                                (map (child outdir) names
                                                 @ (if skip_webp self then skipped_webp batch
                                                    else []))]
                             in (case archive_write w fi of
                                   Some exc \<Rightarrow> failed exc ev2
                                 | None \<Rightarrow>
                                     (case (case archive_exists_second w fi of
                                              Inl exc \<Rightarrow> unreadable exc
                                            | Inr written \<Rightarrow>
                                                if written
                                                then (case archive_stat w fi of
                                                        Inr n \<Rightarrow> (Some n, [], [])
                                                      | Inl exc \<Rightarrow> unreadable exc)
                                                else (None, [], [])) of
                                        (archive_sz, errs, ev3) \<Rightarrow>
                                          (let ev4 = ev2 @ ev3 @ cleanup_dir w fi outdir
                                           in if raised ev4
                                              then ((None, archive_sz, errs), ev4)
                                              else (case archive_exists_third w fi of
                                                      Inl exc \<Rightarrow>
                                                        ((None, archive_sz, errs),
                                                         ev4 @ [Uncaught (OSError exc)])
                                                    | Inr kept \<Rightarrow>
                                                        (((if kept then Some archive
                                                           else None),
                                                          archive_sz, errs),
                                                         ev4)))))))))))"

subsection \<open>The summary of a run\<close>

definition truthy :: "string option \<Rightarrow> bool" where
  "truthy v = (case v of None \<Rightarrow> False | Some s \<Rightarrow> s \<noteq> [])"

definition build_run_summary ::
  "World \<Rightarrow> FolderSummary list \<Rightarrow> real \<Rightarrow> int \<Rightarrow> int \<Rightarrow> int \<Rightarrow> bool \<Rightarrow> RunSummary" where
  "build_run_summary w folder_summaries run_start total_work_units processed_units
       expected cancel =
     (let total_bytes_orig = sum_list (map bytes_original folder_summaries);
          total_bytes_conv = sum_list (map bytes_converted folder_summaries)
      in \<lparr>cancelled = cancel,
          duration = max 0 (perf_counter w Run_end - run_start),
          total_images = total_work_units,
          processed_images = processed_units,
          expected_conversions = expected,
          totals =
            \<lparr>total_converted = sum_list (map converted folder_summaries),
             total_skipped = sum_list (map skipped_existing folder_summaries),
             total_errors = sum_list (map (\<lambda>summary. int (length (errors summary)))
                                          folder_summaries),
             total_bytes_original = total_bytes_orig,
             total_bytes_converted = total_bytes_conv,
             total_bytes_saved = max 0 (total_bytes_orig - total_bytes_conv),
             archives_created = sum_list (map (\<lambda>summary. if truthy (archive_path summary)
                                                             then 1 else 0) folder_summaries)\<rparr>,
          folders_list = map asdict folder_summaries\<rparr>)"

subsection \<open>The run\<close>

text \<open>
  The values that \<^verbatim>\<open>run\<close> fixes before its loop over the batches and that every
  summary needs: \<^verbatim>\<open>run_start\<close>, \<^verbatim>\<open>total_work_units\<close> and \<^verbatim>\<open>total_convertible\<close>.
\<close>

record run_consts =
  run_start :: real
  total_work_units :: int
  total_convertible :: int

definition cancelled_summary ::
  "World \<Rightarrow> run_consts \<Rightarrow> FolderSummary list \<Rightarrow> int \<Rightarrow> event list" where
  "cancelled_summary w c folder_summaries processed_units =
     [Summary_ready (build_run_summary w folder_summaries (run_start c) (total_work_units c)
                       processed_units (total_convertible c) True),
      Finished]"

text \<open>
  The loop over the convertible images of one batch (lines 161 to 190). Its state is
  \<^verbatim>\<open>processed_units\<close>, \<^verbatim>\<open>converted_count\<close>, \<^verbatim>\<open>bytes_original\<close>, \<^verbatim>\<open>bytes_converted\<close> and
  \<^verbatim>\<open>folder_errors\<close>; the loop either runs to its end or leaves \<^verbatim>\<open>run\<close>.
\<close>

definition after_convert ::
  "bool \<times> int \<times> int \<times> string option \<Rightarrow> int \<times> int \<times> int \<times> string list
   \<Rightarrow> int \<times> int \<times> int \<times> string list" where
  "after_convert outcome st =
     (case (outcome, st) of
        ((success, original_size, converted_size, error_message), (cc, bo, bc, errs)) \<Rightarrow>
          if success then (cc + 1, bo + original_size, bc + converted_size, errs)
          else (case error_message of
                  None \<Rightarrow> (cc, bo, bc, errs)
                | Some message \<Rightarrow>
                    if message \<noteq> [] then (cc, bo, bc, errs @ [message])
                    else (cc, bo, bc, errs)))"

datatype images_outcome =
    Images_done int "int \<times> int \<times> int \<times> string list"
  | Images_left

fun image_loop ::
  "Worker \<Rightarrow> World \<Rightarrow> run_consts \<Rightarrow> FolderSummary list \<Rightarrow> FolderBatch \<Rightarrow> nat \<Rightarrow> path
   \<Rightarrow> nat \<Rightarrow> path list \<Rightarrow> int \<Rightarrow> int \<times> int \<times> int \<times> string list
   \<Rightarrow> images_outcome \<times> event list" where
  "image_loop self w c fsums batch fi outdir ii [] pu st = (Images_done pu st, [])"
| "image_loop self w c fsums batch fi outdir ii (source # rest) pu st =
     (if interruption_before_image w fi ii
      then (let ev0 = Status ''Conversion cancelled.'' # cleanup_dir w fi outdir
            in (Images_left,
                if raised ev0 then ev0 else ev0 @ cancelled_summary w c fsums pu))
      else (case convert_image self w fi ii source outdir of
              (outcome, ev1) \<Rightarrow>
                (let ev0 = Status (''['' @ name (folder batch) @ ''] Processing ''
                                   @ name source @ ''...'') # ev1
                 in (case emit_progress (pu + 1) (total_work_units c) of
                       Inl err \<Rightarrow> (Images_left, ev0 @ [Uncaught err])
                     | Inr ev2 \<Rightarrow>
                         (case image_loop self w c fsums batch fi outdir (Suc ii) rest
                                 (pu + 1) (after_convert outcome st) of
                            (r, ev3) \<Rightarrow> (r, ev0 @ ev2 @ ev3))))))"

text \<open>
  One pass of the loop over the batches, after its cancellation check: the folder is
  sealed into a summary and the loop goes on, or \<^verbatim>\<open>run\<close> is left. The pass ends with
  the output strategy, the units of the skipped files and the summary (lines 192 to 217).
\<close>

datatype folder_outcome =
    Folder_done FolderSummary int
  | Folder_left

definition output_strategy ::
  "Worker \<Rightarrow> World \<Rightarrow> nat \<Rightarrow> FolderBatch \<Rightarrow> path
   \<Rightarrow> (path option \<times> int option \<times> string list) \<times> event list" where
  "output_strategy self w fi batch outdir =
     (if replace_originals self
      then (case replace_originals_in w fi batch outdir of
              (errs, ev) \<Rightarrow> ((None, None, errs), ev))
      else create_archive self w fi batch outdir)"

definition finish_folder ::
  "Worker \<Rightarrow> World \<Rightarrow> run_consts \<Rightarrow> nat \<Rightarrow> FolderBatch \<Rightarrow> path \<Rightarrow> int
   \<Rightarrow> int \<times> int \<times> int \<times> string list \<Rightarrow> folder_outcome \<times> event list" where
  "finish_folder self w c fi batch outdir pu st =
     (case (st, output_strategy self w fi batch outdir) of
        ((cc, bo, bc, errs), ((archive, archive_sz, errs'), ev3)) \<Rightarrow>
          if raised ev3 then (Folder_left, ev3)
          else (let skipped_units = int (length (all_images batch))
                                    - int (length (convertible_images batch));
                    summary =
                      \<lparr>folder_str = str_path (folder batch), converted = cc,
                       skipped_existing = int (length (skipped_webp batch)),
                       errors = errs @ errs', bytes_original = bo,
                       bytes_converted = bc, archive_size = archive_sz,
                       archive_path = map_option str_path archive,
                       duration_seconds = perf_counter w (Folder_end fi)
                                          - perf_counter w (Folder_start fi)\<rparr>
                in if skipped_units > 0
                   then (case emit_progress (pu + skipped_units) (total_work_units c) of
                           Inl err \<Rightarrow> (Folder_left, ev3 @ [Uncaught err])
                         | Inr ev4 \<Rightarrow> (Folder_done summary (pu + skipped_units), ev3 @ ev4))
                   else (Folder_done summary pu, ev3)))"

definition process_folder ::
  "Worker \<Rightarrow> World \<Rightarrow> run_consts \<Rightarrow> FolderSummary list \<Rightarrow> nat \<Rightarrow> FolderBatch \<Rightarrow> int
   \<Rightarrow> folder_outcome \<times> event list" where
  "process_folder self w c fsums fi batch pu =
     (let elapsed = perf_counter w (Folder_end fi) - perf_counter w (Folder_start fi);
          ev0 = [Status (''Processing folder '' @ quote @ name (folder batch) @ quote @ ''...'')]
      in (case prepare_output_dir w fi (folder batch) of
            (Inl exc, ev1) \<Rightarrow>
              (let error_msg = ''Unable to prepare output directory for ''
                               @ name (folder batch) @ '': '' @ exc
               in (Folder_done
                     \<lparr>folder_str = str_path (folder batch), converted = 0,
                      skipped_existing = int (length (skipped_webp batch)),
                      errors = [error_msg], bytes_original = 0, bytes_converted = 0,
                      archive_size = None, archive_path = None,
                      duration_seconds = elapsed\<rparr> pu,
                   ev0 @ ev1 @ [Status error_msg]))
          | (Inr outdir, ev1) \<Rightarrow>
              if convertible_images batch = [] \<and> \<not> replace_originals self
              then (let message = ''No images to convert in '' @ name (folder batch)
                                  @ '', skipping.'';
                        ev2 = cleanup_dir w fi outdir
                    in if raised ev2 then (Folder_left, ev0 @ ev1 @ [Status message] @ ev2)
                       else (Folder_done
                               \<lparr>folder_str = str_path (folder batch), converted = 0,
                                skipped_existing = int (length (skipped_webp batch)),
                                errors = [message], bytes_original = 0, bytes_converted = 0,
                                archive_size = None, archive_path = None,
                                duration_seconds = elapsed\<rparr> pu,
                             ev0 @ ev1 @ [Status message] @ ev2))
              else (case image_loop self w c fsums batch fi outdir 0 (convertible_images batch)
                           pu (0, 0, 0, []) of
                      (Images_left, ev2) \<Rightarrow> (Folder_left, ev0 @ ev1 @ ev2)
                    | (Images_done pu1 st, ev2) \<Rightarrow>
                        (case finish_folder self w c fi batch outdir pu1 st of
                           (r, ev3) \<Rightarrow> (r, ev0 @ ev1 @ ev2 @ ev3)))))"

text \<open>
  The loop over the batches: \<open>None\<close> when \<^verbatim>\<open>run\<close> was left inside the loop, otherwise
  the summaries and the processed units the loop ends with.
\<close>

fun folder_loop ::
  "Worker \<Rightarrow> World \<Rightarrow> run_consts \<Rightarrow> nat \<Rightarrow> FolderBatch list \<Rightarrow> FolderSummary list \<Rightarrow> int
   \<Rightarrow> (FolderSummary list \<times> int) option \<times> event list" where
  "folder_loop self w c fi [] fsums pu = (Some (fsums, pu), [])"
| "folder_loop self w c fi (batch # rest) fsums pu =
     (if interruption_before_folder w fi
      then (None, Status ''Conversion cancelled.'' # cancelled_summary w c fsums pu)
      else (case process_folder self w c fsums fi batch pu of
              (Folder_left, ev) \<Rightarrow> (None, ev)
            | (Folder_done summary pu', ev) \<Rightarrow>
                (case folder_loop self w c (Suc fi) rest (fsums @ [summary]) pu' of
                   (r, ev') \<Rightarrow> (r, ev @ ev'))))"

text \<open>Line 81: the denominator of the progress.\<close>

definition work_units :: "int \<Rightarrow> int \<Rightarrow> int" where
  "work_units total_files total_conv = (if total_files > 0 then total_files else total_conv)"

definition run :: "Worker \<Rightarrow> World \<Rightarrow> event list" where
  "run self w =
     (let start = perf_counter w Run_start
      in (case encoder_available w of
            (False, ev0) \<Rightarrow>
              ev0 @ [Summary_ready (build_run_summary w [] start 0 0 0 False), Finished]
          | (True, ev0) \<Rightarrow>
              (case prepare_batches self w of
                 ((batches, total_conv, total_files), ev1) \<Rightarrow>
                   if raised ev1 then ev0 @ ev1
                   else (let work = work_units total_files total_conv;
                             c = \<lparr>run_start = start, total_work_units = work,
                                  total_convertible = total_conv\<rparr>
                         in if total_conv = 0
                            then ev0 @ ev1
                                 @ [Status ''No images to convert in selected folder(s).'',
                                    Summary_ready (build_run_summary w [] start work 0
                                                     total_conv False),
                                    Finished]
                            else (case folder_loop self w c 0 batches [] 0 of
                                    (None, ev2) \<Rightarrow> ev0 @ ev1 @ ev2
                                  | (Some (fsums, pu), ev2) \<Rightarrow>
                                      ev0 @ ev1 @ ev2
                                      @ [Status ''All done!'', Progress 100,
                                         Summary_ready (build_run_summary w fsums start work pu
                                                          total_conv False),
                                         Finished])))))"

section \<open>Observations on a trace\<close>

fun summaries_of :: "event list \<Rightarrow> RunSummary list" where
  "summaries_of [] = []"
| "summaries_of (Summary_ready s # ev) = s # summaries_of ev"
| "summaries_of (_ # ev) = summaries_of ev"

fun progress_values :: "event list \<Rightarrow> int list" where
  "progress_values [] = []"
| "progress_values (Progress v # ev) = v # progress_values ev"
| "progress_values (_ # ev) = progress_values ev"

text \<open>
  An event deletes a path when it unlinks it, moves it away, or removes a directory
  tree that holds it.
\<close>

fun deletes :: "event \<Rightarrow> path \<Rightarrow> bool" where
  "deletes (Unlink q) p = (q = p)"
| "deletes (Move q _) p = (q = p)"
| "deletes (Rmtree q) p =
     (anchor q = anchor p \<and> take (length (parts q)) (parts p) = parts q)"
| "deletes _ p = False"

text \<open>
  The marks that \<^verbatim>\<open>_create_archive\<close> leaves: its first statement emits a status that
  starts with \<^verbatim>\<open>Creating\<close>, and it alone writes an archive.
\<close>

fun archive_mark :: "event \<Rightarrow> bool" where
  "archive_mark (Zip_write _ _) = True"
| "archive_mark (Status s) = (take 9 s = ''Creating '')"
| "archive_mark _ = False"

section \<open>Real-valued reading of the double arithmetic\<close>

text \<open>
  For the proofs: rounding to the nearest integer with ties to even on the reals, the
  rounding of a non-negative real to a double, the value of a mantissa and exponent,
  and the percentage that \<open>emit_progress\<close> emits while nothing overflows.
\<close>

definition rne :: "real \<Rightarrow> int" where
  "rne x = (if frac x < 1/2 then \<lfloor>x\<rfloor> else if 1/2 < frac x then \<lfloor>x\<rfloor> + 1
            else if even \<lfloor>x\<rfloor> then \<lfloor>x\<rfloor> else \<lfloor>x\<rfloor> + 1)"

definition rd :: "real \<Rightarrow> real" where
  "rd x = (let e = max (\<lfloor>log 2 x\<rfloor> - 52) (- 1074)
           in real_of_int (rne (x * 2 powr (- real_of_int e))) * 2 powr (real_of_int e))"

definition valr :: "int \<times> int \<Rightarrow> real" where
  "valr me = real_of_int (fst me) * 2 powr (real_of_int (snd me))"

definition percentage :: "int \<Rightarrow> int \<Rightarrow> int" where
  "percentage p t = min 100 \<lfloor>rd (100 * rd (real_of_int p / real_of_int t))\<rfloor>"

fun plain :: "event \<Rightarrow> bool" where
  "plain (Progress _) = False"
| "plain (Summary_ready _) = False"
| "plain Finished = False"
| "plain _ = True"

definition sealed_summary ::
  "Worker \<Rightarrow> World \<Rightarrow> nat \<Rightarrow> FolderBatch \<Rightarrow> path \<Rightarrow> int \<times> int \<times> int \<times> string list
   \<Rightarrow> FolderSummary" where
  "sealed_summary self w fi batch outdir st =
     (case (st, fst (output_strategy self w fi batch outdir)) of
        ((cc, bo, bc, errs), (archive, archive_sz, errs')) \<Rightarrow>
          \<lparr>folder_str = str_path (folder batch), converted = cc,
           skipped_existing = int (length (skipped_webp batch)),
           errors = errs @ errs', bytes_original = bo,
           bytes_converted = bc, archive_size = archive_sz,
           archive_path = map_option str_path archive,
           duration_seconds = perf_counter w (Folder_end fi)
                              - perf_counter w (Folder_start fi)\<rparr>)"

definition unsealed_summary :: "World \<Rightarrow> nat \<Rightarrow> FolderBatch \<Rightarrow> string \<Rightarrow> FolderSummary" where
  "unsealed_summary w fi batch message =
     \<lparr>folder_str = str_path (folder batch), converted = 0,
      skipped_existing = int (length (skipped_webp batch)),
      errors = [message], bytes_original = 0, bytes_converted = 0,
      archive_size = None, archive_path = None,
      duration_seconds = perf_counter w (Folder_end fi) - perf_counter w (Folder_start fi)\<rparr>"

definition skipped_units_of :: "FolderBatch \<Rightarrow> int" where
  "skipped_units_of batch =
     int (length (all_images batch)) - int (length (convertible_images batch))"

fun fold_images ::
  "Worker \<Rightarrow> World \<Rightarrow> nat \<Rightarrow> path \<Rightarrow> nat \<Rightarrow> path list \<Rightarrow> int \<times> int \<times> int \<times> string list
   \<Rightarrow> int \<times> int \<times> int \<times> string list" where
  "fold_images self w fi outdir ii [] st = st"
| "fold_images self w fi outdir ii (source # rest) st =
     fold_images self w fi outdir (Suc ii) rest
       (after_convert (fst (convert_image self w fi ii source outdir)) st)"

definition folder_summary_of :: "Worker \<Rightarrow> World \<Rightarrow> nat \<Rightarrow> FolderBatch \<Rightarrow> FolderSummary" where
  "folder_summary_of self w fi batch =
     (case fst (prepare_output_dir w fi (folder batch)) of
        Inl exc \<Rightarrow>
          unsealed_summary w fi batch
            (''Unable to prepare output directory for '' @ name (folder batch) @ '': '' @ exc)
      | Inr outdir \<Rightarrow>
          if convertible_images batch = [] \<and> \<not> replace_originals self
          then unsealed_summary w fi batch
                 (''No images to convert in '' @ name (folder batch) @ '', skipping.'')
          else sealed_summary self w fi batch outdir
                 (fold_images self w fi outdir 0 (convertible_images batch) (0, 0, 0, [])))"

fun summaries_from :: "Worker \<Rightarrow> World \<Rightarrow> nat \<Rightarrow> FolderBatch list \<Rightarrow> FolderSummary list" where
  "summaries_from self w fi [] = []"
| "summaries_from self w fi (b # bs) = folder_summary_of self w fi b # summaries_from self w (Suc fi) bs"

definition files_left :: "FolderBatch list \<Rightarrow> int" where
  "files_left bs = sum_list (map (\<lambda>b. int (length (all_images b))) bs)"

definition batch_ok :: "FolderBatch \<Rightarrow> bool" where
  "batch_ok b = (length (convertible_images b) \<le> length (all_images b))"

definition convertible_total :: "FolderBatch list \<Rightarrow> int" where
  "convertible_total bs = sum_list (map (\<lambda>b. int (length (convertible_images b))) bs)"

definition scanned :: "Worker \<Rightarrow> FolderBatch \<Rightarrow> bool" where
  "scanned self b =
     (set (all_images b) \<subseteq> {p. supported p \<and> (\<exists>n. p = child (folder b) n)} \<and>
      convertible_images b
        = filter (\<lambda>p. \<not> (skip_webp self \<and> lower (suffix p) = ''.webp'')) (all_images b) \<and>
      skipped_webp b
        = (if skip_webp self then filter (\<lambda>p. lower (suffix p) = ''.webp'') (all_images b)
           else []))"

definition run_consts_of :: "World \<Rightarrow> FolderBatch list \<Rightarrow> run_consts" where
  "run_consts_of w batches =
     \<lparr>run_start = perf_counter w Run_start, total_work_units = files_left batches,
      total_convertible = convertible_total batches\<rparr>"

definition unmarked :: "event list \<Rightarrow> bool" where
  "unmarked ev = (\<forall>e\<in>set ev. \<not> archive_mark e)"

text \<open>
  Every call of the folder with index \<open>fi\<close> that stands outside a handler returns: the
  \<^verbatim>\<open>exists\<close> of \<^verbatim>\<open>_cleanup_dir\<close>, of each original and of the archive, and the listing of
  the output directory.
\<close>

definition calls_return :: "World \<Rightarrow> nat \<Rightarrow> FolderBatch \<Rightarrow> bool" where
  "calls_return w fi batch =
     (\<not> isl (cleanup_exists w fi) \<and>
      list_all (\<lambda>j. \<not> isl (original_exists w fi j)) [0..<length (convertible_images batch)] \<and>
      \<not> isl (outdir_iterdir w fi) \<and>
      \<not> isl (archive_exists_first w fi) \<and>
      \<not> isl (archive_exists_third w fi))"

text \<open>
  The events that \<^verbatim>\<open>_create_archive\<close> may cause, given the archive and the output
  directory: a status, a write or an unlink of the archive, the removal of the output
  directory, and an exception that leaves the function.
\<close>

fun archive_event :: "path \<Rightarrow> path \<Rightarrow> event \<Rightarrow> bool" where
  "archive_event archive outdir (Status _) = True"
| "archive_event archive outdir (Zip_write a _) = (a = archive)"
| "archive_event archive outdir (Unlink a) = (a = archive)"
| "archive_event archive outdir (Rmtree d) = (d = outdir)"
| "archive_event archive outdir (Uncaught _) = True"
| "archive_event archive outdir _ = False"

section \<open>A sample run\<close>

text \<open>
  A worker on two folders and an environment in which the first folder holds two
  convertible images, one WebP file, a text file and a directory, the second folder is
  empty, and every call succeeds.
\<close>

definition sample_worker :: Worker where
  "sample_worker =
     \<lparr>folders = [Path ''/'' [''pics''], Path ''/'' [''empty'']], quality = 100,
      use_cbz = False, replace_originals = False, skip_webp = True\<rparr>"

definition sample_world :: World where
  "sample_world =
     \<lparr>which_encoder = True, perf_counter = (\<lambda>_. 0),
      interruption_before_folder = (\<lambda>_. False),
      interruption_before_image = (\<lambda>_ _. False),
      folder_exists = (\<lambda>_. Inr True),
      folder_iterdir = (\<lambda>i. if i = 0
         then Inr [(''a.png'', True), (''b.jpg'', True), (''c.webp'', True),
                   (''notes.txt'', True), (''sub.png'', False)]
         else Inr []),
      outdir_stale = (\<lambda>_. Inr False), rmtree_stale = (\<lambda>_. None),
      mkdir_outdir = (\<lambda>_. None),
      cleanup_exists = (\<lambda>_. Inr True), cleanup_rmtree = (\<lambda>_. None),
      source_stat = (\<lambda>_ _. Some 100), subprocess_run = (\<lambda>_ _. Completed 0 []),
      target_exists = (\<lambda>_ _. Inr True), target_stat = (\<lambda>_ _. Some 40),
      original_exists = (\<lambda>_ _. Inr True), original_unlink = (\<lambda>_ _. None),
      outdir_iterdir = (\<lambda>_. Inr [''a.webp'', ''b.webp'']), optimized_move = (\<lambda>_ _. None),
      archive_exists_first = (\<lambda>_. Inr False), archive_unlink = (\<lambda>_. None),
      archive_iterdir = (\<lambda>_. Inr [''a.webp'', ''b.webp'']), archive_write = (\<lambda>_. None),
      archive_exists_second = (\<lambda>_. Inr True), archive_stat = (\<lambda>_. Inr 70),
      archive_exists_third = (\<lambda>_. Inr True)\<rparr>"

text \<open>The same environment, in which cancellation is requested once the first folder is done.\<close>

definition cancelling_world :: World where
  "cancelling_world = sample_world\<lparr>interruption_before_folder := (\<lambda>i. i = 1)\<rparr>"

text \<open>The sample worker with replace-originals and the archive flag both set.\<close>

definition replacing_worker :: Worker where
  "replacing_worker = sample_worker\<lparr>use_cbz := True, replace_originals := True\<rparr>"

text \<open>
  The same environment, in which cancellation is requested while the first image of the
  first folder is converted.
\<close>

definition interrupting_world :: World where
  "interrupting_world = sample_world\<lparr>interruption_before_image := (\<lambda>i j. i = 0 \<and> j = 1)\<rparr>"

text \<open>
  An environment in which the first folder holds two WebP files and nothing else and the
  second folder is empty, so that no folder has an image to convert; and the same
  environment with cancellation requested from the start.
\<close>

definition webp_only_world :: World where
  "webp_only_world =
     sample_world\<lparr>folder_iterdir := (\<lambda>i. if i = 0
        then Inr [(''c.webp'', True), (''d.webp'', True)] else Inr [])\<rparr>"

definition webp_cancelling_world :: World where
  "webp_cancelling_world = webp_only_world\<lparr>interruption_before_folder := (\<lambda>_. True)\<rparr>"

section \<open>The rounding is monotone\<close>

lemma rne_bounds: "\<lfloor>x\<rfloor> \<le> rne x" "rne x \<le> \<lfloor>x\<rfloor> + 1"
  by (simp_all add: rne_def)

lemma rne_mono: assumes "x \<le> y" shows "rne x \<le> rne y"
proof (cases "\<lfloor>x\<rfloor> = \<lfloor>y\<rfloor>")
  case True
  with assms have "frac x \<le> frac y" by (simp add: frac_def)
  with True show ?thesis by (auto simp: rne_def)
next
  case False
  with assms have "\<lfloor>x\<rfloor> + 1 \<le> \<lfloor>y\<rfloor>" using floor_mono[OF assms] by linarith
  with rne_bounds[of x] rne_bounds[of y] show ?thesis by linarith
qed

lemma rne_of_int [simp]: "rne (of_int k) = k"
  by (simp add: rne_def)

lemma round_half_even_rne:
  assumes "0 < d" shows "round_half_even n d = rne (real_of_int n / real_of_int d)"
proof -
  let ?x = "real_of_int n / real_of_int d"
  have fl: "\<lfloor>?x\<rfloor> = n div d" by (simp add: floor_divide_of_int_eq)
  have md: "real_of_int (n mod d) = real_of_int n - real_of_int (n div d) * real_of_int d"
    by (metis add_diff_cancel_left' mult.commute of_int_diff of_int_mult mult_div_mod_eq)
  have "frac ?x = ?x - real_of_int (n div d)" by (simp only: frac_def fl)
  also have "\<dots> = real_of_int (n mod d) / real_of_int d"
    using assms unfolding md by (simp add: field_simps)
  finally have fr: "frac ?x = real_of_int (n mod d) / real_of_int d" .
  have a: "frac ?x < 1/2 \<longleftrightarrow> 2 * (n mod d) < d"
    using assms by (simp add: fr field_simps) linarith
  have b: "1/2 < frac ?x \<longleftrightarrow> d < 2 * (n mod d)"
    using assms by (simp add: fr field_simps) linarith
  show ?thesis
    unfolding round_half_even_def rne_def Let_def a b fl by simp
qed

lemma scale_pow2:
  "real_of_int (2 ^ nat k) / real_of_int (2 ^ nat (- k)) = 2 powr (real_of_int k)"
proof (cases "0 \<le> k")
  case True
  then have "2 powr (real_of_int k) = 2 powr (real (nat k))" by simp
  also have "\<dots> = 2 ^ nat k" by (simp add: powr_realpow)
  finally show ?thesis using True by simp
next
  case False
  then have "2 powr (real_of_int k) = 2 powr (- real (nat (- k)))" by simp
  also have "\<dots> = 1 / 2 ^ nat (- k)" by (simp add: powr_minus_divide powr_realpow)
  finally show ?thesis using False by simp
qed

lemma scaled_quotient:
  assumes "0 < d"
  shows "real_of_int (n * 2 ^ nat (- e)) / real_of_int (d * 2 ^ nat e)
         = (real_of_int n / real_of_int d) * 2 powr (- real_of_int e)"
proof -
  have "2 powr (- real_of_int e) = real_of_int (2 ^ nat (- e)) / real_of_int (2 ^ nat (- (- e)))"
    using scale_pow2[of "- e"] by simp
  then show ?thesis using assms by simp
qed

lemma floor_log2_eq:
  assumes "0 < n" "0 < d"
  shows "floor_log2 n d = \<lfloor>log 2 (real_of_int n / real_of_int d)\<rfloor>"
proof -
  let ?L = "log 2 (real_of_int n / real_of_int d)"
  let ?k = "bitlen n - bitlen d"
  have L: "?L = log 2 (real_of_int n) - log 2 (real_of_int d)"
    using assms by (simp add: log_divide)
  have bn: "bitlen n = \<lfloor>log 2 (real_of_int n)\<rfloor> + 1" and bd: "bitlen d = \<lfloor>log 2 (real_of_int d)\<rfloor> + 1"
    using assms by (simp_all add: bitlen_alt_def)
  have lo: "real_of_int ?k - 1 < ?L" and hi: "?L < real_of_int ?k + 1"
    unfolding L bn bd by linarith+
  have "(d * 2 ^ nat ?k \<le> n * 2 ^ nat (- ?k)) \<longleftrightarrow>
        (real_of_int d * real_of_int (2 ^ nat ?k) \<le> real_of_int n * real_of_int (2 ^ nat (- ?k)))"
    by (metis of_int_le_iff of_int_mult)
  also have "\<dots> \<longleftrightarrow> real_of_int (2 ^ nat ?k) / real_of_int (2 ^ nat (- ?k)) \<le> real_of_int n / real_of_int d"
    using assms by (simp add: field_simps)
  also have "\<dots> \<longleftrightarrow> 2 powr (real_of_int ?k) \<le> real_of_int n / real_of_int d"
    by (simp only: scale_pow2)
  also have "\<dots> \<longleftrightarrow> real_of_int ?k \<le> ?L"
    using assms by (simp add: le_log_iff)
  finally have c: "(d * 2 ^ nat ?k \<le> n * 2 ^ nat (- ?k)) \<longleftrightarrow> real_of_int ?k \<le> ?L" .
  show ?thesis
  proof (cases "real_of_int ?k \<le> ?L")
    case True
    then have "\<lfloor>?L\<rfloor> = ?k" using hi by (intro floor_unique) auto
    with True c show ?thesis by (simp add: floor_log2_def Let_def)
  next
    case False
    then have "\<lfloor>?L\<rfloor> = ?k - 1" using lo by (intro floor_unique) auto
    with False c show ?thesis by (simp add: floor_log2_def Let_def)
  qed
qed

lemma round_double_rd:
  assumes "0 < n" "0 < d"
  shows "valr (round_double n d) = rd (real_of_int n / real_of_int d)"
proof -
  have "0 < d * 2 ^ nat e" for e using assms by simp
  then show ?thesis
    using assms
    by (simp add: valr_def round_double_def rd_def Let_def floor_log2_eq
        round_half_even_rne scaled_quotient del: of_int_mult of_int_power)
qed

lemma rd_nonneg: "0 \<le> x \<Longrightarrow> 0 \<le> rd x"
proof -
  assume "0 \<le> x"
  then have "0 \<le> x * 2 powr r" for r by simp
  then have "0 \<le> rne (x * 2 powr r)" for r
    using rne_mono[of 0 "x * 2 powr r"] rne_of_int[of 0] by simp
  then show ?thesis by (simp add: rd_def Let_def)
qed

lemma rd_zero [simp]: "rd 0 = 0"
  using rne_of_int[of 0] by (simp add: rd_def Let_def)

lemma rd_mono_pos:
  assumes "0 < x" "x \<le> y"
  shows "rd x \<le> rd y"
proof -
  define ex where "ex = max (\<lfloor>log 2 x\<rfloor> - 52) (- 1074)"
  define ey where "ey = max (\<lfloor>log 2 y\<rfloor> - 52) (- 1074)"
  have y: "0 < y" using assms by simp
  have "log 2 x \<le> log 2 y" using assms by simp
  then have exy: "ex \<le> ey" unfolding ex_def ey_def using floor_mono by fastforce
  have rx: "rd x = real_of_int (rne (x * 2 powr (- real_of_int ex))) * 2 powr (real_of_int ex)"
    by (simp add: rd_def ex_def Let_def)
  have ry: "rd y = real_of_int (rne (y * 2 powr (- real_of_int ey))) * 2 powr (real_of_int ey)"
    by (simp add: rd_def ey_def Let_def)
  show ?thesis
  proof (cases "ex = ey")
    case True
    have "x * 2 powr (- real_of_int ey) \<le> y * 2 powr (- real_of_int ey)"
      using assms by simp
    then have "rne (x * 2 powr (- real_of_int ey)) \<le> rne (y * 2 powr (- real_of_int ey))"
      by (rule rne_mono)
    then show ?thesis unfolding rx ry True by simp
  next
    case False
    with exy have lt: "ex + 1 \<le> ey" by simp
    then have eyf: "ey = \<lfloor>log 2 y\<rfloor> - 52" unfolding ey_def ex_def by linarith
    have "\<lfloor>log 2 x\<rfloor> - 52 \<le> ex" unfolding ex_def by simp
    then have "log 2 x < real_of_int (ex + 53)" by linarith
    then have xu: "x < 2 powr (real_of_int (ex + 53))"
      using assms(1) by (simp add: log_less_iff)
    have "real_of_int (ey + 52) \<le> log 2 y" unfolding eyf by simp
    then have yl: "2 powr (real_of_int (ey + 52)) \<le> y"
      using y by (simp add: le_log_iff)
    have "x * 2 powr (- real_of_int ex) \<le> 2 powr (real_of_int (ex + 53)) * 2 powr (- real_of_int ex)"
      using xu by simp
    also have "\<dots> = 2 powr 53" by (simp add: powr_add[symmetric])
    also have "\<dots> = real_of_int (2 ^ 53)" by (simp add: powr_realpow[of 2 53, simplified])
    finally have "rne (x * 2 powr (- real_of_int ex)) \<le> 2 ^ 53"
      using rne_mono rne_of_int by metis
    then have "real_of_int (rne (x * 2 powr (- real_of_int ex))) \<le> 2 powr 53"
      by (metis of_int_le_iff \<open>2 powr 53 = real_of_int (2 ^ 53)\<close>)
    then have "rd x \<le> 2 powr 53 * 2 powr (real_of_int ex)"
      unfolding rx by (simp add: mult_right_mono)
    also have "\<dots> = 2 powr (real_of_int (ex + 53))"
      by (simp only: powr_add[symmetric] of_int_add of_int_numeral add.commute)
    also have "\<dots> \<le> 2 powr (real_of_int (ey + 52))" using lt by simp
    finally have A: "rd x \<le> 2 powr (real_of_int (ey + 52))" .
    have "2 powr 52 = 2 powr (real_of_int (ey + 52)) * 2 powr (- real_of_int ey)"
      by (simp add: powr_add[symmetric])
    also have "\<dots> \<le> y * 2 powr (- real_of_int ey)" using yl by simp
    finally have "2 powr 52 \<le> y * 2 powr (- real_of_int ey)" .
    moreover have "2 powr 52 = real_of_int (2 ^ 52)" by (simp add: powr_realpow[of 2 52, simplified])
    ultimately have "2 ^ 52 \<le> rne (y * 2 powr (- real_of_int ey))"
      using rne_mono rne_of_int by metis
    then have "2 powr 52 \<le> real_of_int (rne (y * 2 powr (- real_of_int ey)))"
      by (metis of_int_le_iff \<open>2 powr 52 = real_of_int (2 ^ 52)\<close>)
    then have "2 powr 52 * 2 powr (real_of_int ey) \<le> rd y"
      unfolding ry by (simp add: mult_right_mono)
    then have B: "2 powr (real_of_int (ey + 52)) \<le> rd y"
      by (simp only: powr_add[symmetric] of_int_add of_int_numeral add.commute)
    from A B show ?thesis by linarith
  qed
qed

lemma rd_mono: "0 \<le> x \<Longrightarrow> x \<le> y \<Longrightarrow> rd x \<le> rd y"
  using rd_mono_pos[of x y] rd_nonneg[of y] by (cases "x = 0") auto

lemma in_double_range_valr: "in_double_range m e \<longleftrightarrow> valr (m, e) < 2 ^ 1024"
proof -
  have "in_double_range m e \<longleftrightarrow>
        real_of_int m * real_of_int (2 ^ nat e) < 2 ^ 1024 * real_of_int (2 ^ nat (- e))"
    unfolding in_double_range_def
    by (metis of_int_less_iff of_int_mult of_int_numeral of_int_power)
  also have "\<dots> \<longleftrightarrow> real_of_int m * (real_of_int (2 ^ nat e) / real_of_int (2 ^ nat (- e))) < 2 ^ 1024"
    by (simp add: field_simps)
  also have "\<dots> \<longleftrightarrow> valr (m, e) < 2 ^ 1024"
    by (simp only: scale_pow2 valr_def fst_conv snd_conv)
  finally show ?thesis .
qed

lemma round_double_nonneg:
  assumes "0 < n" "0 < d" "round_double n d = (m, e)"
  shows "0 \<le> m"
proof -
  have "0 < d * 2 ^ nat k" for k using assms by simp
  then have "m = rne (real_of_int (n * 2 ^ nat (- e)) / real_of_int (d * 2 ^ nat e))"
    using assms(3) by (auto simp: round_double_def Let_def round_half_even_rne)
  moreover have "0 \<le> real_of_int (n * 2 ^ nat (- e)) / real_of_int (d * 2 ^ nat e)"
    using assms by simp
  ultimately show ?thesis using rne_mono rne_of_int[of 0] by (metis of_int_0)
qed

lemma py_int_nonneg:
  assumes "0 \<le> m"
  shows "py_int (Dbl m e) = Inr \<lfloor>valr (m, e)\<rfloor>"
proof -
  have "(m * 2 ^ nat e) div 2 ^ nat (- e)
        = \<lfloor>real_of_int (m * 2 ^ nat e) / real_of_int (2 ^ nat (- e))\<rfloor>"
    by (simp only: floor_divide_of_int_eq)
  also have "\<dots> = \<lfloor>real_of_int m * (real_of_int (2 ^ nat e) / real_of_int (2 ^ nat (- e)))\<rfloor>"
    by simp
  also have "\<dots> = \<lfloor>valr (m, e)\<rfloor>"
    by (simp only: scale_pow2 valr_def fst_conv snd_conv)
  finally have d: "(m * 2 ^ nat e) div 2 ^ nat (- e) = \<lfloor>valr (m, e)\<rfloor>" .
  show ?thesis
  proof (cases "m = 0")
    case True
    then show ?thesis by (simp add: py_int_def valr_def)
  next
    case False
    with assms have "sgn m = 1" "\<bar>m\<bar> = m" by simp_all
    then show ?thesis using d by (simp add: py_int_def)
  qed
qed

lemma int_truediv_pos:
  assumes "0 < p" "0 < t" "rd (real_of_int p / real_of_int t) < 2 ^ 1024"
  shows "\<exists>m e. int_truediv p t = Inr (Dbl m e) \<and> 0 \<le> m
              \<and> valr (m, e) = rd (real_of_int p / real_of_int t)"
proof -
  obtain m e where me: "round_double p t = (m, e)" by (cases "round_double p t")
  have v: "valr (m, e) = rd (real_of_int p / real_of_int t)"
    using round_double_rd[OF assms(1,2)] me by simp
  have m: "0 \<le> m" using round_double_nonneg[OF assms(1,2) me] .
  have "in_double_range m e" using v assms(3) by (simp add: in_double_range_valr)
  then have "int_truediv p t = Inr (Dbl m e)"
    using assms(1,2) me by (simp add: int_truediv_def)
  with v m show ?thesis by blast
qed

lemma float_mul_100_pos:
  assumes "0 \<le> m" "rd (100 * valr (m, e)) < 2 ^ 1024"
  shows "\<exists>m' e'. float_mul_100 (Dbl m e) = Dbl m' e' \<and> 0 \<le> m'
              \<and> valr (m', e') = rd (100 * valr (m, e))"
proof (cases "m = 0")
  case True
  then have "float_mul_100 (Dbl m e) = Dbl 0 0" by (simp add: float_mul_100_def)
  moreover have "valr (0, 0) = rd (100 * valr (m, e))" using True by (simp add: valr_def)
  ultimately show ?thesis by force
next
  case False
  with assms have mp: "0 < m" by simp
  let ?n = "\<bar>m\<bar> * 100 * 2 ^ nat e" and ?d = "2 ^ nat (- e) :: int"
  have n: "0 < ?n" and d: "0 < ?d" using mp by simp_all
  obtain m' e' where me: "round_double ?n ?d = (m', e')" by (cases "round_double ?n ?d")
  have "real_of_int ?n / real_of_int ?d
        = 100 * (real_of_int m * (real_of_int (2 ^ nat e) / real_of_int (2 ^ nat (- e))))"
    using mp by simp
  also have "\<dots> = 100 * valr (m, e)"
    by (simp only: scale_pow2 valr_def fst_conv snd_conv)
  finally have q: "real_of_int ?n / real_of_int ?d = 100 * valr (m, e)" .
  have v: "valr (m', e') = rd (100 * valr (m, e))"
    using round_double_rd[OF n d] me q by simp
  have m': "0 \<le> m'" using round_double_nonneg[OF n d me] .
  have "in_double_range m' e'" using v assms(2) by (simp add: in_double_range_valr)
  then have "float_mul_100 (Dbl m e) = Dbl m' e'"
    using mp me by (simp add: float_mul_100_def)
  with v m' show ?thesis by blast
qed

lemma emit_progress_percentage:
  assumes "0 \<le> p" "0 < t"
    and r1: "rd (real_of_int p / real_of_int t) < 2 ^ 1024"
    and r2: "rd (100 * rd (real_of_int p / real_of_int t)) < 2 ^ 1024"
  shows "emit_progress p t = Inr [Progress (percentage p t)]"
proof (cases "p = 0")
  case True
  have "py_int (Dbl 0 0) = Inr 0" by (simp add: py_int_def)
  then show ?thesis using True assms(2)
    by (simp add: emit_progress_def int_truediv_def float_mul_100_def percentage_def)
next
  case False
  with assms have p: "0 < p" by simp
  obtain m e where a: "int_truediv p t = Inr (Dbl m e)" "0 \<le> m"
      "valr (m, e) = rd (real_of_int p / real_of_int t)"
    using int_truediv_pos[OF p assms(2) r1] by blast
  obtain m' e' where b: "float_mul_100 (Dbl m e) = Dbl m' e'" "0 \<le> m'"
      "valr (m', e') = rd (100 * valr (m, e))"
    using float_mul_100_pos[OF a(2)] r2 a(3) by metis
  show ?thesis
    using assms(2) a b py_int_nonneg[OF b(2), of e']
    by (simp add: emit_progress_def percentage_def)
qed

lemma round_double_1: "round_double 1 1 = (4503599627370496, - 52)"
  by code_simp

lemma round_double_100: "round_double 100 1 = (7036874417766400, - 46)"
  by code_simp

lemma rd_1: "rd 1 = 1"
  using round_double_rd[of 1 1] by (simp add: round_double_1 valr_def powr_minus_divide)

lemma rd_100: "rd 100 = 100"
  using round_double_rd[of 100 1] by (simp add: round_double_100 valr_def powr_minus_divide)

lemma rd_ratio_le_1:
  assumes "0 \<le> p" "p \<le> t" "0 < t"
  shows "rd (real_of_int p / real_of_int t) \<le> 1"
proof -
  have "real_of_int p / real_of_int t \<le> 1" using assms by simp
  moreover have "0 \<le> real_of_int p / real_of_int t" using assms by simp
  ultimately show ?thesis using rd_mono rd_1 by metis
qed

lemma rd_100_ratio_le_100:
  assumes "0 \<le> p" "p \<le> t" "0 < t"
  shows "rd (100 * rd (real_of_int p / real_of_int t)) \<le> 100"
proof -
  have "0 \<le> rd (real_of_int p / real_of_int t)" using assms by (simp add: rd_nonneg)
  moreover have "100 * rd (real_of_int p / real_of_int t) \<le> 100"
    using rd_ratio_le_1[OF assms] by simp
  ultimately show ?thesis using rd_mono[of "100 * rd (real_of_int p / real_of_int t)" 100] rd_100
    by simp
qed

lemma emit_progress_le:
  assumes "0 \<le> p" "p \<le> t" "0 < t"
  shows "emit_progress p t = Inr [Progress (percentage p t)]"
proof -
  have "rd (real_of_int p / real_of_int t) < 2 ^ 1024"
    using rd_ratio_le_1[OF assms] by (rule le_less_trans) simp
  moreover have "rd (100 * rd (real_of_int p / real_of_int t)) < 2 ^ 1024"
    using rd_100_ratio_le_100[OF assms] by (rule le_less_trans) simp
  ultimately show ?thesis using assms by (intro emit_progress_percentage) auto
qed

lemma percentage_le_100: "percentage p t \<le> 100"
  by (simp add: percentage_def)

lemma percentage_nonneg:
  assumes "0 \<le> p" "0 < t" shows "0 \<le> percentage p t"
proof -
  have "0 \<le> rd (real_of_int p / real_of_int t)" using assms by (simp add: rd_nonneg)
  then have "0 \<le> rd (100 * rd (real_of_int p / real_of_int t))" by (simp add: rd_nonneg)
  then show ?thesis by (simp add: percentage_def)
qed

lemma percentage_mono:
  assumes "0 \<le> p" "p \<le> q" "0 < t"
  shows "percentage p t \<le> percentage q t"
proof -
  have a: "0 \<le> real_of_int p / real_of_int t" using assms by simp
  have "real_of_int p / real_of_int t \<le> real_of_int q / real_of_int t"
    using assms by (simp add: divide_right_mono)
  then have "rd (real_of_int p / real_of_int t) \<le> rd (real_of_int q / real_of_int t)"
    using a by (rule rd_mono[rotated])
  moreover have "0 \<le> rd (real_of_int p / real_of_int t)" using a by (rule rd_nonneg)
  ultimately have "rd (100 * rd (real_of_int p / real_of_int t))
                   \<le> rd (100 * rd (real_of_int q / real_of_int t))"
    by (intro rd_mono) auto
  then have "\<lfloor>rd (100 * rd (real_of_int p / real_of_int t))\<rfloor>
             \<le> \<lfloor>rd (100 * rd (real_of_int q / real_of_int t))\<rfloor>"
    by (rule floor_mono)
  then show ?thesis by (simp add: percentage_def)
qed

lemma round_double_big: "round_double (2 ^ 1017) 1 = (2 ^ 52, 965)"
  by code_simp

lemma round_double_big_100: "round_double (100 * 2 ^ 1017) 1 = (100 * 2 ^ 46, 971)"
  by code_simp

lemma rd_pow_1017: "rd (2 ^ 1017) = 2 ^ 1017"
proof -
  have "valr (round_double (2 ^ 1017) 1) = rd (real_of_int (2 ^ 1017) / real_of_int 1)"
    by (rule round_double_rd) simp_all
  then have "real_of_int (2 ^ 52) * 2 powr (real_of_int 965) = rd (2 ^ 1017)"
    unfolding round_double_big valr_def fst_conv snd_conv by simp
  then show ?thesis by simp
qed

lemma rd_100_pow_1017: "rd (100 * 2 ^ 1017) = 100 * 2 ^ 1017"
proof -
  have "valr (round_double (100 * 2 ^ 1017) 1)
        = rd (real_of_int (100 * 2 ^ 1017) / real_of_int 1)"
    by (rule round_double_rd) simp_all
  then have "real_of_int (100 * 2 ^ 46) * 2 powr (real_of_int 971) = rd (100 * 2 ^ 1017)"
    unfolding round_double_big_100 valr_def fst_conv snd_conv by simp
  then show ?thesis by simp
qed

lemma emit_progress_bounded:
  assumes "0 \<le> p" "0 < t" "p \<le> 2 ^ 1017 * t"
  shows "emit_progress p t = Inr [Progress (percentage p t)]"
proof -
  let ?x = "real_of_int p / real_of_int t"
  have x0: "0 \<le> ?x" using assms by simp
  have "real_of_int p \<le> 2 ^ 1017 * real_of_int t"
    using assms(3) by (metis of_int_le_iff of_int_mult of_int_numeral of_int_power)
  then have x1: "?x \<le> 2 ^ 1017" using assms(2) by (simp add: field_simps)
  have r1: "rd ?x \<le> 2 ^ 1017" using rd_mono[OF x0 x1] by (simp only: rd_pow_1017)
  have "0 \<le> 100 * rd ?x" using rd_nonneg[OF x0] by simp
  moreover have "100 * rd ?x \<le> 100 * 2 ^ 1017" using r1 by simp
  ultimately have r2: "rd (100 * rd ?x) \<le> 100 * 2 ^ 1017"
    using rd_mono[of "100 * rd ?x" "100 * 2 ^ 1017"] by (simp only: rd_100_pow_1017)
  have "rd ?x < 2 ^ 1024" using r1 by (rule le_less_trans) simp
  moreover have "rd (100 * rd ?x) < 2 ^ 1024" using r2 by (rule le_less_trans) simp
  ultimately show ?thesis using assms by (intro emit_progress_percentage) auto
qed

section \<open>The loops of a run\<close>

lemma summaries_of_append [simp]: "summaries_of (a @ b) = summaries_of a @ summaries_of b"
  by (induction a rule: summaries_of.induct) simp_all

lemma progress_values_append [simp]:
  "progress_values (a @ b) = progress_values a @ progress_values b"
  by (induction a rule: progress_values.induct) simp_all

lemma plain_summaries: "list_all plain ev \<Longrightarrow> summaries_of ev = []"
  by (induction ev rule: summaries_of.induct) simp_all

lemma plain_progress: "list_all plain ev \<Longrightarrow> progress_values ev = []"
  by (induction ev rule: progress_values.induct) simp_all

lemma raised_simps [simp]:
  "raised [] = False" "raised (e # ev) = (uncaught e \<or> raised ev)"
  "raised (a @ b) = (raised a \<or> raised b)"
  by (simp_all add: raised_def)

lemma raised_cleanup_dir [simp]: "raised (cleanup_dir w fi d) = isl (cleanup_exists w fi)"
  by (simp add: cleanup_dir_def split: option.splits sum.splits)

lemma plain_cleanup_dir: "list_all plain (cleanup_dir w fi d)"
  by (simp add: cleanup_dir_def split: option.splits sum.splits)

lemma plain_prepare_output_dir: "list_all plain (snd (prepare_output_dir w fi fld))"
  by (simp add: prepare_output_dir_def Let_def split: option.splits sum.splits)

lemma plain_convert_image: "list_all plain (snd (convert_image self w fi ii source outdir))"
  by (simp add: convert_image_def Let_def split: proc_result.splits)

lemma plain_delete_originals: "list_all plain (snd (delete_originals w fi ii xs))"
  by (induction xs arbitrary: ii)
     (simp_all add: Let_def case_prod_beta split: option.splits sum.splits)

lemma plain_move_optimized: "list_all plain (snd (move_optimized w fi fld outdir j xs))"
  by (induction xs arbitrary: j) (simp_all add: Let_def case_prod_beta split: option.splits)

lemma plain_replace_originals_in: "list_all plain (snd (replace_originals_in w fi batch outdir))"
  using plain_delete_originals[of w fi 0 "convertible_images batch"]
  by (simp add: replace_originals_in_def plain_cleanup_dir plain_move_optimized Let_def
        case_prod_beta split: sum.splits)

lemma plain_create_archive: "list_all plain (snd (create_archive self w fi batch outdir))"
  by (simp add: create_archive_def Let_def plain_cleanup_dir
           split: option.splits sum.splits prod.splits)

lemma plain_output_strategy: "list_all plain (snd (output_strategy self w fi batch outdir))"
  using plain_replace_originals_in[of w fi batch outdir] plain_create_archive[of self w fi batch outdir]
  by (simp add: output_strategy_def case_prod_beta)

lemma plain_prepare_batches_from: "list_all plain (snd (prepare_batches_from self w i fs acc))"
  by (induction self w i fs acc rule: prepare_batches_from.induct)
     (simp_all add: Let_def case_prod_beta split: sum.splits)

lemma plain_encoder_available: "list_all plain (snd (encoder_available w))"
  by (simp add: encoder_available_def)

lemma image_loop_Cons:
  assumes "0 \<le> pu" "pu < total_work_units c"
  shows "image_loop self w c fsums batch fi outdir ii (source # rest) pu st =
     (if interruption_before_image w fi ii
      then (Images_left,
            Status ''Conversion cancelled.'' # cleanup_dir w fi outdir
            @ (if isl (cleanup_exists w fi) then [] else cancelled_summary w c fsums pu))
      else (case image_loop self w c fsums batch fi outdir (Suc ii) rest (pu + 1)
                   (after_convert (fst (convert_image self w fi ii source outdir)) st) of
              (r, ev3) \<Rightarrow>
                (r, Status (''['' @ name (folder batch) @ ''] Processing '' @ name source @ ''...'')
                    # snd (convert_image self w fi ii source outdir)
                    @ Progress (percentage (pu + 1) (total_work_units c)) # ev3)))"
  using assms emit_progress_le[of "pu + 1" "total_work_units c"]
  by (simp add: case_prod_beta Let_def)

declare image_loop.simps(2) [simp del]

lemma summaries_cancelled [simp]:
  "summaries_of (cancelled_summary w c fsums pu)
   = [build_run_summary w fsums (run_start c) (total_work_units c) pu (total_convertible c) True]"
  by (simp add: cancelled_summary_def)

lemma progress_cancelled [simp]: "progress_values (cancelled_summary w c fsums pu) = []"
  by (simp add: cancelled_summary_def)

lemma image_loop_rule [consumes 3, case_names Nil Cancel Step]:
  assumes "image_loop self w c fsums batch fi outdir ii images pu st = (r, ev)"
    and "0 \<le> pu" and "pu + int (length images) \<le> total_work_units c"
    and "\<And>ii pu st. P ii [] pu st (Images_done pu st) []"
    and "\<And>ii source rest pu st.
           interruption_before_image w fi ii \<Longrightarrow> 0 \<le> pu \<Longrightarrow>
           pu + 1 + int (length rest) \<le> total_work_units c \<Longrightarrow>
           P ii (source # rest) pu st Images_left
             (Status ''Conversion cancelled.'' # cleanup_dir w fi outdir
              @ (if isl (cleanup_exists w fi) then [] else cancelled_summary w c fsums pu))"
    and "\<And>ii source rest pu st r ev3.
           \<not> interruption_before_image w fi ii \<Longrightarrow> 0 \<le> pu \<Longrightarrow>
           pu + 1 + int (length rest) \<le> total_work_units c \<Longrightarrow>
           image_loop self w c fsums batch fi outdir (Suc ii) rest (pu + 1)
             (after_convert (fst (convert_image self w fi ii source outdir)) st) = (r, ev3) \<Longrightarrow>
           P (Suc ii) rest (pu + 1)
             (after_convert (fst (convert_image self w fi ii source outdir)) st) r ev3 \<Longrightarrow>
           P ii (source # rest) pu st r
             (Status (''['' @ name (folder batch) @ ''] Processing '' @ name source @ ''...'')
              # snd (convert_image self w fi ii source outdir)
              @ Progress (percentage (pu + 1) (total_work_units c)) # ev3)"
  shows "P ii images pu st r ev"
  using assms(1-3)
proof (induction images arbitrary: ii pu st r ev)
  case Nil
  then show ?case using assms(4)[of ii pu st] by simp
next
  case (Cons source rest)
  have lt: "pu < total_work_units c" using Cons.prems by simp
  have b: "pu + 1 + int (length rest) \<le> total_work_units c" using Cons.prems by simp
  show ?case
  proof (cases "interruption_before_image w fi ii")
    case True
    then have "r = Images_left"
      and "ev = Status ''Conversion cancelled.'' # cleanup_dir w fi outdir
                @ (if isl (cleanup_exists w fi) then [] else cancelled_summary w c fsums pu)"
      using Cons.prems(1) by (simp_all add: image_loop_Cons[OF Cons.prems(2) lt])
    then show ?thesis using assms(5)[OF True Cons.prems(2) b] by simp
  next
    case False
    obtain r' ev3 where rec: "image_loop self w c fsums batch fi outdir (Suc ii) rest (pu + 1)
        (after_convert (fst (convert_image self w fi ii source outdir)) st) = (r', ev3)"
      by (cases "image_loop self w c fsums batch fi outdir (Suc ii) rest (pu + 1)
        (after_convert (fst (convert_image self w fi ii source outdir)) st)")
    have r: "r = r'" and ev: "ev = Status (''['' @ name (folder batch) @ ''] Processing ''
                    @ name source @ ''...'')
                    # snd (convert_image self w fi ii source outdir)
                    @ Progress (percentage (pu + 1) (total_work_units c)) # ev3"
      using Cons.prems(1) False rec by (simp_all add: image_loop_Cons[OF Cons.prems(2) lt])
    have "P (Suc ii) rest (pu + 1)
             (after_convert (fst (convert_image self w fi ii source outdir)) st) r' ev3"
      using Cons.IH[OF rec] Cons.prems(2) b by simp
    then show ?thesis
      using assms(6)[OF False Cons.prems(2) b rec] unfolding r ev by simp
  qed
qed

lemma image_loop_done:
  assumes "image_loop self w c fsums batch fi outdir ii images pu st = (r, ev)"
    and "0 \<le> pu" "pu + int (length images) \<le> total_work_units c"
  shows "r = Images_done pu' st' \<longrightarrow> summaries_of ev = [] \<and> pu' = pu + int (length images)"
  using assms
proof (induction rule: image_loop_rule)
  case (Nil ii pu st)
  then show ?case by simp
next
  case (Cancel ii source rest pu st)
  then show ?case by simp
next
  case (Step ii source rest pu st r ev3)
  then show ?case by (auto simp: plain_summaries[OF plain_convert_image])
qed

lemma image_loop_left:
  assumes "image_loop self w c fsums batch fi outdir ii images pu st = (r, ev)"
    and "0 \<le> pu" "pu + int (length images) \<le> total_work_units c"
  shows "r = Images_left \<longrightarrow>
           (\<exists>pu'. pu \<le> pu' \<and> pu' \<le> pu + int (length images) \<and>
              summaries_of ev
                = (if isl (cleanup_exists w fi) then []
                   else [build_run_summary w fsums (run_start c) (total_work_units c)
                           pu' (total_convertible c) True]))"
  using assms
proof (induction rule: image_loop_rule)
  case (Nil ii pu st)
  then show ?case by simp
next
  case (Cancel ii source rest pu st)
  show ?case
    by (intro impI exI[of _ pu]) (simp add: plain_summaries[OF plain_cleanup_dir])
next
  case (Step ii source rest pu st r ev3)
  show ?case
  proof
    assume "r = Images_left"
    with Step(5) obtain pu' where p: "pu + 1 \<le> pu'" "pu' \<le> pu + 1 + int (length rest)"
      "summaries_of ev3
         = (if isl (cleanup_exists w fi) then []
            else [build_run_summary w fsums (run_start c) (total_work_units c)
                    pu' (total_convertible c) True])" by blast
    show "\<exists>pu'. pu \<le> pu' \<and> pu' \<le> pu + int (length (source # rest)) \<and>
        summaries_of (Status (''['' @ name (folder batch) @ ''] Processing '' @ name source @ ''...'')
              # snd (convert_image self w fi ii source outdir)
              @ Progress (percentage (pu + 1) (total_work_units c)) # ev3)
        = (if isl (cleanup_exists w fi) then []
           else [build_run_summary w fsums (run_start c) (total_work_units c)
                   pu' (total_convertible c) True])"
      using p by (intro exI[of _ pu']) (simp add: plain_summaries[OF plain_convert_image])
  qed
qed

lemma image_loop_progress:
  assumes "image_loop self w c fsums batch fi outdir ii images pu st = (r, ev)"
    and "0 \<le> pu" "pu + int (length images) \<le> total_work_units c"
  shows "sorted (progress_values ev) \<and>
         (\<forall>v\<in>set (progress_values ev).
            percentage pu (total_work_units c) \<le> v \<and>
            v \<le> percentage (pu + int (length images)) (total_work_units c))"
  using assms
proof (induction rule: image_loop_rule)
  case (Nil ii pu st)
  then show ?case by simp
next
  case (Cancel ii source rest pu st)
  then show ?case by (simp add: plain_progress[OF plain_cleanup_dir])
next
  case (Step ii source rest pu st r ev3)
  have t: "0 < total_work_units c" using Step by simp
  have m1: "percentage pu (total_work_units c) \<le> percentage (pu + 1) (total_work_units c)"
    using Step t by (intro percentage_mono) auto
  have m2: "percentage (pu + 1) (total_work_units c)
            \<le> percentage (pu + 1 + int (length rest)) (total_work_units c)"
    using Step t by (intro percentage_mono) auto
  have len: "pu + int (length (source # rest)) = pu + 1 + int (length rest)" by simp
  have ih1: "sorted (progress_values ev3)"
    and ih2: "\<And>v. v \<in> set (progress_values ev3) \<Longrightarrow>
            percentage (pu + 1) (total_work_units c) \<le> v \<and>
            v \<le> percentage (pu + 1 + int (length rest)) (total_work_units c)"
    using Step(5) by blast+
  have pv: "progress_values (Status (''['' @ name (folder batch) @ ''] Processing '' @ name source @ ''...'')
              # snd (convert_image self w fi ii source outdir)
              @ Progress (percentage (pu + 1) (total_work_units c)) # ev3)
           = percentage (pu + 1) (total_work_units c) # progress_values ev3"
    by (simp add: plain_progress[OF plain_convert_image])
  show ?case unfolding len pv
  proof (intro conjI ballI)
    show "sorted (percentage (pu + 1) (total_work_units c) # progress_values ev3)"
      using ih1 ih2 by auto
  next
    fix v assume "v \<in> set (percentage (pu + 1) (total_work_units c) # progress_values ev3)"
    then consider "v = percentage (pu + 1) (total_work_units c)" | "v \<in> set (progress_values ev3)"
      by auto
    then show "percentage pu (total_work_units c) \<le> v"
      using m1 ih2 by cases force+
  next
    fix v assume "v \<in> set (percentage (pu + 1) (total_work_units c) # progress_values ev3)"
    then consider "v = percentage (pu + 1) (total_work_units c)" | "v \<in> set (progress_values ev3)"
      by auto
    then show "v \<le> percentage (pu + 1 + int (length rest)) (total_work_units c)"
      using m2 ih2 by cases force+
  qed
qed

lemma finish_folder_eq:
  assumes "0 \<le> pu" "pu + skipped_units_of batch \<le> total_work_units c"
  shows "finish_folder self w c fi batch outdir pu st =
           (if raised (snd (output_strategy self w fi batch outdir))
            then (Folder_left, snd (output_strategy self w fi batch outdir))
            else (Folder_done (sealed_summary self w fi batch outdir st)
                    (pu + max 0 (skipped_units_of batch)),
                  snd (output_strategy self w fi batch outdir)
                  @ (if 0 < skipped_units_of batch
                     then [Progress (percentage (pu + skipped_units_of batch)
                                       (total_work_units c))]
                     else [])))"
proof (cases "0 < skipped_units_of batch")
  case True
  then have "emit_progress (pu + skipped_units_of batch) (total_work_units c)
             = Inr [Progress (percentage (pu + skipped_units_of batch) (total_work_units c))]"
    using assms by (intro emit_progress_le) auto
  then show ?thesis using True
    by (simp add: finish_folder_def sealed_summary_def skipped_units_of_def Let_def
        case_prod_beta max_def)
next
  case False
  then show ?thesis
    by (simp add: finish_folder_def sealed_summary_def skipped_units_of_def Let_def
        case_prod_beta max_def)
qed

lemma prepare_output_dir_Inr:
  "prepare_output_dir w fi fld = (Inr outdir, ev) \<Longrightarrow> outdir = child fld OUTPUT_DIR_NAME"
  by (auto simp: prepare_output_dir_def Let_def split: option.splits if_splits sum.splits)

lemma process_folder_cases
  [consumes 4, case_names Prepare_failed Skipped Skip_raised Left Strategy_raised Sealed]:
  assumes "process_folder self w c fsums fi batch pu = (r, ev)"
    and "0 \<le> pu"
    and "pu + int (length (all_images batch)) \<le> total_work_units c"
    and "length (convertible_images batch) \<le> length (all_images batch)"
  obtains
    (Prepare_failed) exc ev1 where
      "prepare_output_dir w fi (folder batch) = (Inl exc, ev1)"
      "r = Folder_done (unsealed_summary w fi batch
             (''Unable to prepare output directory for '' @ name (folder batch) @ '': '' @ exc)) pu"
      "ev = Status (''Processing folder '' @ quote @ name (folder batch) @ quote @ ''...'') # ev1
            @ [Status (''Unable to prepare output directory for '' @ name (folder batch)
                       @ '': '' @ exc)]"
  | (Skipped) ev1 where
      "prepare_output_dir w fi (folder batch) = (Inr (child (folder batch) OUTPUT_DIR_NAME), ev1)"
      "convertible_images batch = []" "\<not> replace_originals self"
      "\<not> isl (cleanup_exists w fi)"
      "r = Folder_done (unsealed_summary w fi batch
             (''No images to convert in '' @ name (folder batch) @ '', skipping.'')) pu"
      "ev = Status (''Processing folder '' @ quote @ name (folder batch) @ quote @ ''...'') # ev1
            @ Status (''No images to convert in '' @ name (folder batch) @ '', skipping.'')
            # cleanup_dir w fi (child (folder batch) OUTPUT_DIR_NAME)"
  | (Skip_raised) ev1 where
      "prepare_output_dir w fi (folder batch) = (Inr (child (folder batch) OUTPUT_DIR_NAME), ev1)"
      "convertible_images batch = []" "\<not> replace_originals self"
      "isl (cleanup_exists w fi)"
      "r = Folder_left"
      "ev = Status (''Processing folder '' @ quote @ name (folder batch) @ quote @ ''...'') # ev1
            @ Status (''No images to convert in '' @ name (folder batch) @ '', skipping.'')
            # cleanup_dir w fi (child (folder batch) OUTPUT_DIR_NAME)"
  | (Left) ev1 ev2 where
      "prepare_output_dir w fi (folder batch) = (Inr (child (folder batch) OUTPUT_DIR_NAME), ev1)"
      "convertible_images batch \<noteq> [] \<or> replace_originals self"
      "image_loop self w c fsums batch fi (child (folder batch) OUTPUT_DIR_NAME) 0
         (convertible_images batch) pu (0, 0, 0, []) = (Images_left, ev2)"
      "r = Folder_left"
      "ev = Status (''Processing folder '' @ quote @ name (folder batch) @ quote @ ''...'') # ev1
            @ ev2"
  | (Strategy_raised) ev1 ev2 st where
      "prepare_output_dir w fi (folder batch) = (Inr (child (folder batch) OUTPUT_DIR_NAME), ev1)"
      "convertible_images batch \<noteq> [] \<or> replace_originals self"
      "image_loop self w c fsums batch fi (child (folder batch) OUTPUT_DIR_NAME) 0
         (convertible_images batch) pu (0, 0, 0, [])
       = (Images_done (pu + int (length (convertible_images batch))) st, ev2)"
      "raised (snd (output_strategy self w fi batch (child (folder batch) OUTPUT_DIR_NAME)))"
      "r = Folder_left"
      "ev = Status (''Processing folder '' @ quote @ name (folder batch) @ quote @ ''...'') # ev1
            @ ev2 @ snd (output_strategy self w fi batch (child (folder batch) OUTPUT_DIR_NAME))"
  | (Sealed) ev1 ev2 st where
      "prepare_output_dir w fi (folder batch) = (Inr (child (folder batch) OUTPUT_DIR_NAME), ev1)"
      "convertible_images batch \<noteq> [] \<or> replace_originals self"
      "image_loop self w c fsums batch fi (child (folder batch) OUTPUT_DIR_NAME) 0
         (convertible_images batch) pu (0, 0, 0, [])
       = (Images_done (pu + int (length (convertible_images batch))) st, ev2)"
      "r = Folder_done (sealed_summary self w fi batch (child (folder batch) OUTPUT_DIR_NAME) st)
             (pu + int (length (all_images batch)))"
      "ev = Status (''Processing folder '' @ quote @ name (folder batch) @ quote @ ''...'') # ev1
            @ ev2 @ snd (output_strategy self w fi batch (child (folder batch) OUTPUT_DIR_NAME))
            @ (if 0 < skipped_units_of batch
               then [Progress (percentage (pu + int (length (all_images batch)))
                                 (total_work_units c))]
               else [])"
      "\<not> raised (snd (output_strategy self w fi batch (child (folder batch) OUTPUT_DIR_NAME)))"
proof -
  let ?outdir = "child (folder batch) OUTPUT_DIR_NAME"
  obtain pr ev1 where prep: "prepare_output_dir w fi (folder batch) = (pr, ev1)"
    by (cases "prepare_output_dir w fi (folder batch)")
  show thesis
  proof (cases pr)
    case (Inl exc)
    with prep assms(1) show thesis
      by (intro Prepare_failed)
         (auto simp: process_folder_def unsealed_summary_def Let_def)
  next
    case (Inr outdir)
    with prep have od: "outdir = ?outdir" by (simp add: prepare_output_dir_Inr)
    note prep' = prep[unfolded Inr od]
    show thesis
    proof (cases "convertible_images batch = [] \<and> \<not> replace_originals self")
      case True
      show thesis
      proof (cases "isl (cleanup_exists w fi)")
        case r: True
        with True prep' assms(1) show thesis
          by (intro Skip_raised)
             (auto simp: process_folder_def unsealed_summary_def Let_def)
      next
        case r: False
        with True prep' assms(1) show thesis
          by (intro Skipped)
             (auto simp: process_folder_def unsealed_summary_def Let_def)
      qed
    next
      case False
      then have ne: "convertible_images batch \<noteq> [] \<or> replace_originals self" by blast
      obtain ri ev2 where il: "image_loop self w c fsums batch fi ?outdir 0
         (convertible_images batch) pu (0, 0, 0, []) = (ri, ev2)"
        by (cases "image_loop self w c fsums batch fi ?outdir 0
         (convertible_images batch) pu (0, 0, 0, [])")
      have inv: "pu + int (length (convertible_images batch)) \<le> total_work_units c"
        using assms(3,4) by simp
      show thesis
      proof (cases ri)
        case Images_left
        with prep' False il assms(1) show thesis
          by (intro Left ne) (auto simp: process_folder_def Let_def)
      next
        case (Images_done pu1 st)
        with image_loop_done[OF il assms(2) inv, of pu1 st]
        have pu1: "pu1 = pu + int (length (convertible_images batch))" by simp
        have sk: "pu1 + skipped_units_of batch = pu + int (length (all_images batch))"
          by (simp add: pu1 skipped_units_of_def)
        have mx: "pu1 + max 0 (skipped_units_of batch) = pu + int (length (all_images batch))"
          using assms(4) by (simp add: pu1 skipped_units_of_def max_def)
        have ff: "finish_folder self w c fi batch ?outdir pu1 st =
           (if raised (snd (output_strategy self w fi batch ?outdir))
            then (Folder_left, snd (output_strategy self w fi batch ?outdir))
            else (Folder_done (sealed_summary self w fi batch ?outdir st)
                    (pu + int (length (all_images batch))),
                  snd (output_strategy self w fi batch ?outdir)
                  @ (if 0 < skipped_units_of batch
                     then [Progress (percentage (pu + int (length (all_images batch)))
                                       (total_work_units c))]
                     else [])))"
          using finish_folder_eq[of pu1 batch c self w fi ?outdir st] assms(2,3)
          unfolding sk mx by (simp add: pu1)
        show thesis
        proof (cases "raised (snd (output_strategy self w fi batch ?outdir))")
          case True
          then show thesis
            using prep' False il[unfolded Images_done] assms(1) ff
            by (intro Strategy_raised[OF _ ne, of ev1 st ev2])
               (auto simp: process_folder_def Let_def pu1)
        next
          case nr: False
          then show thesis
            using prep' False il[unfolded Images_done] assms(1) ff
            by (intro Sealed[OF _ ne, of ev1 st ev2])
               (auto simp: process_folder_def Let_def pu1)
        qed
      qed
    qed
  qed
qed

lemma files_left_simps [simp]:
  "files_left [] = 0" "files_left (b # bs) = int (length (all_images b)) + files_left bs"
  by (simp_all add: files_left_def)

lemma files_left_nonneg: "0 \<le> files_left bs"
  by (induction bs) simp_all

lemma image_loop_state:
  assumes "image_loop self w c fsums batch fi outdir ii images pu st = (r, ev)"
    and "0 \<le> pu" "pu + int (length images) \<le> total_work_units c"
  shows "r = Images_done pu' st' \<longrightarrow> st' = fold_images self w fi outdir ii images st"
  using assms
  by (induction rule: image_loop_rule) simp_all

lemma image_loop_no_interruption:
  assumes "image_loop self w c fsums batch fi outdir ii images pu st = (r, ev)"
    and "0 \<le> pu" "pu + int (length images) \<le> total_work_units c"
  shows "(\<forall>j<length images. \<not> interruption_before_image w fi (ii + j)) \<longrightarrow> r \<noteq> Images_left"
  using assms
proof (induction rule: image_loop_rule)
  case (Nil ii pu st)
  then show ?case by simp
next
  case (Cancel ii source rest pu st)
  then show ?case by (auto intro: exI[of _ 0])
next
  case (Step ii source rest pu st r ev3)
  show ?case
  proof
    assume a: "\<forall>j<length (source # rest). \<not> interruption_before_image w fi (ii + j)"
    have "\<forall>j<length rest. \<not> interruption_before_image w fi (Suc ii + j)"
    proof (intro allI impI)
      fix j assume "j < length rest"
      then have "Suc j < length (source # rest)" by simp
      with a have "\<not> interruption_before_image w fi (ii + Suc j)" by blast
      then show "\<not> interruption_before_image w fi (Suc ii + j)" by simp
    qed
    with Step(5) show "r \<noteq> Images_left" by blast
  qed
qed

lemma process_folder_done:
  assumes "process_folder self w c fsums fi batch pu = (r, ev)"
    and "0 \<le> pu"
    and "pu + int (length (all_images batch)) \<le> total_work_units c"
    and "length (convertible_images batch) \<le> length (all_images batch)"
    and "r = Folder_done summary pu'"
  shows "summary = folder_summary_of self w fi batch \<and> pu \<le> pu' \<and>
    pu' \<le> pu + int (length (all_images batch)) \<and> summaries_of ev = []"
  using assms(1-4)
proof (cases rule: process_folder_cases)
  case (Prepare_failed exc ev1)
  then show ?thesis
    using assms(5) plain_prepare_output_dir[of w fi "folder batch"]
    by (simp add: folder_summary_of_def plain_summaries)
next
  case (Skipped ev1)
  then show ?thesis
    using assms(5) plain_prepare_output_dir[of w fi "folder batch"]
    by (simp add: folder_summary_of_def plain_summaries plain_cleanup_dir)
next
  case (Skip_raised ev1)
  then show ?thesis
    using assms(5) by simp
next
  case (Left ev1 ev2)
  then show ?thesis
    using assms(5) by simp
next
  case (Strategy_raised ev1 ev2 st)
  then show ?thesis
    using assms(5) by simp
next
  case (Sealed ev1 ev2 st)
  have inv: "pu + int (length (convertible_images batch)) \<le> total_work_units c"
    using assms(3,4) by simp
  have st: "st = fold_images self w fi (child (folder batch) OUTPUT_DIR_NAME) 0
                   (convertible_images batch) (0, 0, 0, [])"
    using image_loop_state[OF Sealed(3) assms(2) inv] by simp
  have s2: "summaries_of ev2 = []"
    using image_loop_done[OF Sealed(3) assms(2) inv] by simp
  show ?thesis
    using Sealed assms(5) st s2 plain_prepare_output_dir[of w fi "folder batch"]
      plain_output_strategy[of self w fi batch "child (folder batch) OUTPUT_DIR_NAME"]
    by (auto simp: folder_summary_of_def plain_summaries)
qed

lemma process_folder_left:
  assumes "process_folder self w c fsums fi batch pu = (Folder_left, ev)"
    and "0 \<le> pu"
    and "pu + int (length (all_images batch)) \<le> total_work_units c"
    and "length (convertible_images batch) \<le> length (all_images batch)"
  shows "summaries_of ev = [] \<or>
    (\<exists>pu'. summaries_of ev = [build_run_summary w fsums (run_start c) (total_work_units c)
                                   pu' (total_convertible c) True])"
  using assms
proof (cases rule: process_folder_cases)
  case (Skip_raised ev1)
  then show ?thesis
    using plain_prepare_output_dir[of w fi "folder batch"]
    by (simp add: plain_summaries plain_cleanup_dir)
next
  case (Left ev1 ev2)
  have inv: "pu + int (length (convertible_images batch)) \<le> total_work_units c"
    using assms(3,4) by simp
  obtain pu' where "summaries_of ev2
         = (if isl (cleanup_exists w fi) then []
            else [build_run_summary w fsums (run_start c) (total_work_units c)
                    pu' (total_convertible c) True])"
    using image_loop_left[OF Left(3) assms(2) inv] by blast
  then show ?thesis
    using Left(5) plain_prepare_output_dir[of w fi "folder batch"] Left(1)
    by (auto simp: plain_summaries)
next
  case (Strategy_raised ev1 ev2 st)
  have inv: "pu + int (length (convertible_images batch)) \<le> total_work_units c"
    using assms(3,4) by simp
  have "summaries_of ev2 = []"
    using image_loop_done[OF Strategy_raised(3) assms(2) inv] by simp
  then show ?thesis
    using Strategy_raised(1,6) plain_prepare_output_dir[of w fi "folder batch"]
      plain_output_strategy[of self w fi batch "child (folder batch) OUTPUT_DIR_NAME"]
    by (simp add: plain_summaries)
qed simp_all

text \<open>When the calls outside a handler return, no exception leaves the output strategy.\<close>

lemma delete_originals_returns:
  "\<forall>j<length xs. \<not> isl (original_exists w fi (ii + j))
   \<Longrightarrow> \<not> raised (snd (delete_originals w fi ii xs))"
proof (induction xs arbitrary: ii)
  case Nil
  then show ?case by simp
next
  case (Cons x xs)
  have "\<forall>j<length xs. \<not> isl (original_exists w fi (Suc ii + j))"
  proof (intro allI impI)
    fix j assume "j < length xs"
    then have "Suc j < length (x # xs)" by simp
    with Cons.prems have "\<not> isl (original_exists w fi (ii + Suc j))" by blast
    then show "\<not> isl (original_exists w fi (Suc ii + j))" by simp
  qed
  then have ih: "\<not> raised (snd (delete_originals w fi (Suc ii) xs))" by (rule Cons.IH)
  from Cons.prems have "\<not> isl (original_exists w fi (ii + 0))" by auto
  then obtain present where "original_exists w fi ii = Inr present"
    by (cases "original_exists w fi ii") simp_all
  then show ?case using ih
    by (simp add: case_prod_beta Let_def split: option.splits)
qed

lemma move_optimized_returns: "\<not> raised (snd (move_optimized w fi fld outdir j xs))"
  by (induction xs arbitrary: j) (simp_all add: Let_def case_prod_beta split: option.splits)

lemma replace_originals_in_returns:
  assumes "calls_return w fi batch"
  shows "\<not> raised (snd (replace_originals_in w fi batch outdir))"
proof -
  have "\<forall>j<length (convertible_images batch). \<not> isl (original_exists w fi (0 + j))"
    using assms by (simp add: calls_return_def list_all_iff)
  then have d: "\<not> raised (snd (delete_originals w fi 0 (convertible_images batch)))"
    by (rule delete_originals_returns)
  obtain names where n: "outdir_iterdir w fi = Inr names"
    using assms by (cases "outdir_iterdir w fi") (simp_all add: calls_return_def)
  have c: "\<not> isl (cleanup_exists w fi)" using assms by (simp add: calls_return_def)
  show ?thesis
    using d n c move_optimized_returns[of w fi "folder batch" outdir 0 names]
    by (simp add: replace_originals_in_def Let_def case_prod_beta)
qed

lemma create_archive_returns:
  assumes "calls_return w fi batch"
  shows "\<not> raised (snd (create_archive self w fi batch outdir))"
proof -
  obtain present where p: "archive_exists_first w fi = Inr present"
    using assms by (cases "archive_exists_first w fi") (simp_all add: calls_return_def)
  obtain kept where k: "archive_exists_third w fi = Inr kept"
    using assms by (cases "archive_exists_third w fi") (simp_all add: calls_return_def)
  have c: "\<not> isl (cleanup_exists w fi)" using assms by (simp add: calls_return_def)
  show ?thesis
    using p k c
    by (simp add: create_archive_def Let_def
          split: option.splits sum.splits prod.splits)
qed

lemma output_strategy_returns:
  assumes "calls_return w fi batch"
  shows "\<not> raised (snd (output_strategy self w fi batch outdir))"
  using replace_originals_in_returns[OF assms, of outdir]
    create_archive_returns[OF assms, of self outdir]
  by (simp add: output_strategy_def case_prod_beta)

lemma process_folder_returns:
  assumes "process_folder self w c fsums fi batch pu = (r, ev)"
    and "0 \<le> pu"
    and "pu + int (length (all_images batch)) \<le> total_work_units c"
    and "length (convertible_images batch) \<le> length (all_images batch)"
    and "\<forall>j<length (convertible_images batch). \<not> interruption_before_image w fi j"
    and "calls_return w fi batch"
  shows "r \<noteq> Folder_left"
  using assms(1-4)
proof (cases rule: process_folder_cases)
  case (Prepare_failed exc ev1)
  then show ?thesis by simp
next
  case (Skipped ev1)
  then show ?thesis by simp
next
  case (Skip_raised ev1)
  with assms(6) show ?thesis by (simp add: calls_return_def)
next
  case (Left ev1 ev2)
  have inv: "pu + int (length (convertible_images batch)) \<le> total_work_units c"
    using assms(3,4) by simp
  have "Images_left \<noteq> Images_left"
    using image_loop_no_interruption[OF Left(3) assms(2) inv] assms(5) by simp
  then show ?thesis by simp
next
  case (Strategy_raised ev1 ev2 st)
  with output_strategy_returns[OF assms(6)] show ?thesis by simp
next
  case (Sealed ev1 ev2 st)
  then show ?thesis by simp
qed

lemma folder_loop_rule [consumes 4, case_names Nil Cancel Left Step]:
  assumes "folder_loop self w c fi batches fsums pu = (r, ev)"
    and "0 \<le> pu" and "pu + files_left batches \<le> total_work_units c"
    and "\<forall>b\<in>set batches. batch_ok b"
    and "\<And>fi fsums pu. P fi [] fsums pu (Some (fsums, pu)) []"
    and "\<And>fi batch rest fsums pu.
           interruption_before_folder w fi \<Longrightarrow>
           P fi (batch # rest) fsums pu None
             (Status ''Conversion cancelled.'' # cancelled_summary w c fsums pu)"
    and "\<And>fi batch rest fsums pu evp.
           \<not> interruption_before_folder w fi \<Longrightarrow> 0 \<le> pu \<Longrightarrow>
           pu + int (length (all_images batch)) \<le> total_work_units c \<Longrightarrow> batch_ok batch \<Longrightarrow>
           process_folder self w c fsums fi batch pu = (Folder_left, evp) \<Longrightarrow>
           P fi (batch # rest) fsums pu None evp"
    and "\<And>fi batch rest fsums pu pu' evp r ev'.
           \<not> interruption_before_folder w fi \<Longrightarrow> 0 \<le> pu \<Longrightarrow>
           pu + int (length (all_images batch)) \<le> total_work_units c \<Longrightarrow> batch_ok batch \<Longrightarrow>
           process_folder self w c fsums fi batch pu
             = (Folder_done (folder_summary_of self w fi batch) pu', evp) \<Longrightarrow>
           pu \<le> pu' \<Longrightarrow> pu' \<le> pu + int (length (all_images batch)) \<Longrightarrow>
           pu' + files_left rest \<le> total_work_units c \<Longrightarrow>
           summaries_of evp = [] \<Longrightarrow>
           folder_loop self w c (Suc fi) rest (fsums @ [folder_summary_of self w fi batch]) pu'
             = (r, ev') \<Longrightarrow>
           P (Suc fi) rest (fsums @ [folder_summary_of self w fi batch]) pu' r ev' \<Longrightarrow>
           P fi (batch # rest) fsums pu r (evp @ ev')"
  shows "P fi batches fsums pu r ev"
  using assms(1-4)
proof (induction batches arbitrary: fi fsums pu r ev)
  case Nil
  then show ?case using assms(5)[of fi fsums pu] by simp
next
  case (Cons batch rest)
  have ok: "batch_ok batch" and oks: "\<forall>b\<in>set rest. batch_ok b" using Cons.prems(4) by simp_all
  have b1: "pu + int (length (all_images batch)) \<le> total_work_units c"
    using Cons.prems(3) files_left_nonneg[of rest] by simp
  show ?case
  proof (cases "interruption_before_folder w fi")
    case True
    then show ?thesis using Cons.prems(1) assms(6)[OF True, of batch rest fsums pu] by simp
  next
    case False
    obtain rp evp where pf: "process_folder self w c fsums fi batch pu = (rp, evp)"
      by (cases "process_folder self w c fsums fi batch pu")
    show ?thesis
    proof (cases rp)
      case Folder_left
      then have "r = None" "ev = evp" using Cons.prems(1) False pf by simp_all
      then show ?thesis
        using assms(7)[OF False Cons.prems(2) b1 ok pf[unfolded Folder_left], of rest] by simp
    next
      case (Folder_done summary pu')
      have d: "summary = folder_summary_of self w fi batch \<and> pu \<le> pu' \<and>
               pu' \<le> pu + int (length (all_images batch)) \<and> summaries_of evp = []"
        using process_folder_done[OF pf Cons.prems(2) b1 ok[unfolded batch_ok_def] Folder_done] .
      note pf' = pf[unfolded Folder_done, unfolded conjunct1[OF d]]
      obtain r' ev' where rec: "folder_loop self w c (Suc fi) rest
             (fsums @ [folder_summary_of self w fi batch]) pu' = (r', ev')"
        by (cases "folder_loop self w c (Suc fi) rest
             (fsums @ [folder_summary_of self w fi batch]) pu'")
      have re: "r = r'" "ev = evp @ ev'" using Cons.prems(1) False pf' rec by simp_all
      have p0: "0 \<le> pu'" using d Cons.prems(2) by simp
      have p1: "pu' + files_left rest \<le> total_work_units c" using d Cons.prems(3) by simp
      have ih: "P (Suc fi) rest (fsums @ [folder_summary_of self w fi batch]) pu' r' ev'"
        using Cons.IH[OF rec p0 p1 oks] .
      show ?thesis unfolding re
        using assms(8)[OF False Cons.prems(2) b1 ok pf' _ _ p1 _ rec ih] d by simp
    qed
  qed
qed

lemma summaries_from_append:
  "summaries_from self w fi (xs @ ys)
   = summaries_from self w fi xs @ summaries_from self w (fi + length xs) ys"
  by (induction xs arbitrary: fi) simp_all

lemma length_summaries_from [simp]: "length (summaries_from self w fi bs) = length bs"
  by (induction bs arbitrary: fi) simp_all

lemma nth_summaries_from:
  "i < length bs \<Longrightarrow> summaries_from self w fi bs ! i = folder_summary_of self w (fi + i) (bs ! i)"
proof (induction bs arbitrary: fi i)
  case Nil
  then show ?case by simp
next
  case (Cons b bs)
  then show ?case by (cases i) simp_all
qed

text \<open>What the loop over the batches emits and returns.\<close>

lemma folder_loop_summaries:
  assumes "folder_loop self w c fi batches fsums pu = (r, ev)"
    and "0 \<le> pu" and "pu + files_left batches \<le> total_work_units c"
    and "\<forall>b\<in>set batches. batch_ok b"
  shows "(\<forall>fs pu'. r = Some (fs, pu') \<longrightarrow>
            summaries_of ev = [] \<and> fs = fsums @ summaries_from self w fi batches) \<and>
         (r = None \<longrightarrow>
            summaries_of ev = [] \<or>
            (\<exists>k pu'. k < length batches \<and>
               summaries_of ev = [build_run_summary w
                    (fsums @ summaries_from self w fi (take k batches))
                    (run_start c) (total_work_units c) pu' (total_convertible c) True]))"
  using assms
proof (induction rule: folder_loop_rule)
  case (Nil fi fsums pu)
  then show ?case by simp
next
  case (Cancel fi batch rest fsums pu)
  show ?case by (intro conjI allI impI disjI2 exI[of _ 0] exI[of _ pu]) simp_all
next
  case (Left fi batch rest fsums pu evp)
  consider "summaries_of evp = []"
    | pu' where "summaries_of evp = [build_run_summary w fsums (run_start c)
       (total_work_units c) pu' (total_convertible c) True]"
    using process_folder_left[OF Left(5) Left(2,3) Left(4)[unfolded batch_ok_def]] by blast
  then show ?case
  proof cases
    case 1
    then show ?thesis by simp
  next
    case 2
    then show ?thesis by (intro conjI allI impI disjI2 exI[of _ 0] exI[of _ pu']) simp_all
  qed
next
  case (Step fi batch rest fsums pu pu' evp r ev')
  show ?case
  proof (intro conjI allI impI)
    fix fs pu'' assume "r = Some (fs, pu'')"
    with Step(11) Step(9) show "summaries_of (evp @ ev') = []" by simp
  next
    fix fs pu'' assume "r = Some (fs, pu'')"
    with Step(11) show "fs = fsums @ summaries_from self w fi (batch # rest)" by simp
  next
    assume "r = None"
    with Step(11) consider "summaries_of ev' = []"
      | k pu'' where "k < length rest"
      "summaries_of ev' = [build_run_summary w
           ((fsums @ [folder_summary_of self w fi batch]) @ summaries_from self w (Suc fi) (take k rest))
           (run_start c) (total_work_units c) pu'' (total_convertible c) True]" by blast
    then show "summaries_of (evp @ ev') = [] \<or>
            (\<exists>k pu'. k < length (batch # rest) \<and>
               summaries_of (evp @ ev') = [build_run_summary w
                    (fsums @ summaries_from self w fi (take k (batch # rest)))
                    (run_start c) (total_work_units c) pu' (total_convertible c) True])"
    proof cases
      case 1
      then show ?thesis using Step(9) by simp
    next
      case 2
      then show ?thesis
        using Step(9) by (intro disjI2 exI[of _ "Suc k"] exI[of _ pu'']) simp
    qed
  qed
qed

lemma scanned_scan_folder: "scanned self (scan_folder self fld listing)"
  by (auto simp: scanned_def scan_folder_def Let_def)

lemma scanned_batch_ok: "scanned self b \<Longrightarrow> batch_ok b"
  by (simp add: scanned_def batch_ok_def)

lemma files_left_append [simp]: "files_left (xs @ ys) = files_left xs + files_left ys"
  by (simp add: files_left_def)

lemma convertible_total_simps [simp]:
  "convertible_total [] = 0"
  "convertible_total (b # bs) = int (length (convertible_images b)) + convertible_total bs"
  "convertible_total (xs @ ys) = convertible_total xs + convertible_total ys"
  by (simp_all add: convertible_total_def)

lemma prepare_batches_from_props:
  assumes "prepare_batches_from self w i fs (bs, tc, tf) = ((bs', tc', tf'), ev)"
  shows "\<exists>new. bs' = bs @ new \<and> tc' = tc + convertible_total new \<and>
           tf' = tf + files_left new \<and> (\<forall>b\<in>set new. scanned self b)"
  using assms
proof (induction fs arbitrary: i bs tc tf ev)
  case Nil
  then show ?case by simp
next
  case (Cons fld rest)
  show ?case
  proof (cases "folder_exists w i")
    case (Inl exc)
    with Cons.prems show ?thesis by simp
  next
    case (Inr present)
    show ?thesis
    proof (cases present)
      case False
      obtain ev' where
          "prepare_batches_from self w (Suc i) rest (bs, tc, tf) = ((bs', tc', tf'), ev')"
        using Cons.prems Inr False
        by (cases "prepare_batches_from self w (Suc i) rest (bs, tc, tf)") auto
      then show ?thesis by (rule Cons.IH)
    next
      case True
      show ?thesis
      proof (cases "folder_iterdir w i")
        case l: (Inl exc)
        with Cons.prems Inr True show ?thesis by simp
      next
        case l: (Inr listing)
        let ?b = "scan_folder self fld listing"
        have "prepare_batches_from self w (Suc i) rest
                (bs @ [?b], tc + int (length (convertible_images ?b)),
                 tf + int (length (all_images ?b))) = ((bs', tc', tf'), ev)"
          using Cons.prems Inr True l by (simp add: Let_def)
        from Cons.IH[OF this] obtain new where n: "bs' = (bs @ [?b]) @ new"
          "tc' = tc + int (length (convertible_images ?b)) + convertible_total new"
          "tf' = tf + int (length (all_images ?b)) + files_left new"
          "\<forall>b\<in>set new. scanned self b" by blast
        show ?thesis
          using n scanned_scan_folder[of self fld listing]
          by (intro exI[of _ "?b # new"]) simp
      qed
    qed
  qed
qed

lemma prepare_batches_props:
  assumes "prepare_batches self w = ((batches, tc, tf), ev)"
  shows "tc = convertible_total batches" "tf = files_left batches"
    "\<forall>b\<in>set batches. scanned self b"
  using prepare_batches_from_props[OF assms[unfolded prepare_batches_def]] by auto

lemma plain_prepare_batches: "list_all plain (snd (prepare_batches self w))"
  by (simp add: prepare_batches_def plain_prepare_batches_from)

lemma convertible_le_files: "\<forall>b\<in>set bs. batch_ok b \<Longrightarrow> convertible_total bs \<le> files_left bs"
  by (induction bs) (auto simp: batch_ok_def)

lemma convertible_total_nonneg: "0 \<le> convertible_total bs"
  by (induction bs) simp_all

lemma run_consts_of_simps [simp]:
  "run_start (run_consts_of w batches) = perf_counter w Run_start"
  "total_work_units (run_consts_of w batches) = files_left batches"
  "total_convertible (run_consts_of w batches) = convertible_total batches"
  by (simp_all add: run_consts_of_def)

lemma run_cases [case_names No_encoder Scan_raised Nothing Left Completed]:
  assumes "prepare_batches self w = ((batches, tc, tf), ev1)"
  obtains
    (No_encoder) "\<not> which_encoder w"
      "run self w = snd (encoder_available w)
         @ [Summary_ready (build_run_summary w [] (perf_counter w Run_start) 0 0 0 False),
            Finished]"
  | (Scan_raised) "which_encoder w" "raised ev1" "run self w = ev1"
  | (Nothing) "which_encoder w" "\<not> raised ev1" "convertible_total batches = 0"
      "run self w = ev1 @ [Status ''No images to convert in selected folder(s).'',
         Summary_ready (build_run_summary w [] (perf_counter w Run_start)
            (files_left batches) 0 0 False),
         Finished]"
  | (Left) ev2 where "which_encoder w" "0 < convertible_total batches" "0 < files_left batches"
      "folder_loop self w (run_consts_of w batches) 0 batches [] 0 = (None, ev2)"
      "run self w = ev1 @ ev2" "\<not> raised ev1"
  | (Completed) ev2 fs pu where "which_encoder w" "0 < convertible_total batches"
      "0 < files_left batches"
      "folder_loop self w (run_consts_of w batches) 0 batches [] 0 = (Some (fs, pu), ev2)"
      "run self w = ev1 @ ev2 @ [Status ''All done!'', Progress 100,
         Summary_ready (build_run_summary w fs (perf_counter w Run_start)
            (files_left batches) pu (convertible_total batches) False),
         Finished]" "\<not> raised ev1"
proof -
  note p = prepare_batches_props[OF assms]
  have ok: "\<forall>b\<in>set batches. batch_ok b" using p(3) scanned_batch_ok by blast
  show thesis
  proof (cases "which_encoder w")
    case False
    then show thesis by (intro No_encoder) (simp_all add: run_def encoder_available_def)
  next
    case True
    show thesis
    proof (cases "raised ev1")
      case r: True
      then show thesis using True assms
        by (intro Scan_raised) (simp_all add: run_def encoder_available_def)
    next
      case r: False
      show thesis
      proof (cases "convertible_total batches = 0")
        case z: True
        have "files_left batches > 0 \<or> files_left batches = 0"
          using files_left_nonneg[of batches] by linarith
        then show thesis using True r z assms p(1,2)
          by (intro Nothing) (auto simp: run_def encoder_available_def Let_def work_units_def)
      next
        case nz: False
        then have cpos: "0 < convertible_total batches"
          using convertible_total_nonneg[of batches] by linarith
        then have fpos: "0 < files_left batches" using convertible_le_files[OF ok] by linarith
        have c: "\<lparr>run_start = perf_counter w Run_start, total_work_units = files_left batches,
                  total_convertible = convertible_total batches\<rparr> = run_consts_of w batches"
          by (simp add: run_consts_of_def)
        obtain r' ev2 where
            fl: "folder_loop self w (run_consts_of w batches) 0 batches [] 0 = (r', ev2)"
          by (cases "folder_loop self w (run_consts_of w batches) 0 batches [] 0")
        show thesis
        proof (cases r')
          case None
          show thesis
            using True r nz fpos assms p(1,2) fl[unfolded None]
            by (intro Left[OF True cpos fpos fl[unfolded None] _ r])
               (simp add: run_def encoder_available_def Let_def c work_units_def)
        next
          case (Some a)
          obtain fs pu where a: "a = (fs, pu)" by (cases a)
          show thesis
            using True r nz fpos assms p(1,2) fl[unfolded Some a]
            by (intro Completed[OF True cpos fpos fl[unfolded Some a] _ r])
               (simp add: run_def encoder_available_def Let_def c work_units_def)
        qed
      qed
    qed
  qed
qed

lemma work_units_files:
  assumes "prepare_batches self w = ((batches, tc, tf), ev1)"
  shows "work_units tf tc = files_left batches"
proof -
  note p = prepare_batches_props[OF assms]
  have "\<forall>b\<in>set batches. batch_ok b" using p(3) scanned_batch_ok by blast
  then have "convertible_total batches \<le> files_left batches" by (rule convertible_le_files)
  then show ?thesis
    using p(1,2) files_left_nonneg[of batches] convertible_total_nonneg[of batches]
    by (auto simp: work_units_def)
qed

lemma run_summary_shape:
  assumes "prepare_batches self w = ((batches, tc, tf), ev1)"
    and "s \<in> set (summaries_of (run self w))"
  shows "\<exists>k pu cn. k \<le> length batches \<and>
           s = build_run_summary w (summaries_from self w 0 (take k batches))
                 (perf_counter w Run_start) (if which_encoder w then work_units tf tc else 0)
                 pu (if which_encoder w then tc else 0) cn"
  using assms(1)
proof (cases rule: run_cases)
  case No_encoder
  have "summaries_of (run self w)
        = [build_run_summary w (summaries_from self w 0 (take 0 batches))
             (perf_counter w Run_start) 0 0 0 False]"
    unfolding No_encoder(2) by (simp add: plain_summaries[OF plain_encoder_available])
  then show ?thesis using No_encoder(1) assms(2) by (intro exI[of _ "0::nat"]) auto
next
  case Scan_raised
  have "list_all plain ev1" using plain_prepare_batches[of self w] assms(1) by simp
  then have "summaries_of (run self w) = []"
    unfolding Scan_raised(3) by (simp add: plain_summaries)
  with assms(2) show ?thesis by simp
next
  case Nothing
  note p = prepare_batches_props[OF assms(1)]
  have "list_all plain ev1" using plain_prepare_batches[of self w] assms(1) by simp
  then have "summaries_of (run self w)
        = [build_run_summary w (summaries_from self w 0 (take 0 batches))
             (perf_counter w Run_start) (files_left batches) 0 0 False]"
    unfolding Nothing(4) by (simp add: plain_summaries)
  then show ?thesis using Nothing(1,3) p(1) work_units_files[OF assms(1)] assms(2)
    by (intro exI[of _ "0::nat"]) auto
next
  case (Left ev2)
  note p = prepare_batches_props[OF assms(1)]
  have ok: "\<forall>b\<in>set batches. batch_ok b" using p(3) scanned_batch_ok by blast
  have e1: "list_all plain ev1" using plain_prepare_batches[of self w] assms(1) by simp
  have "summaries_of ev2 = [] \<or>
          (\<exists>k pu'. k < length batches \<and>
               summaries_of ev2 = [build_run_summary w
                    ([] @ summaries_from self w 0 (take k batches))
                    (run_start (run_consts_of w batches))
                    (total_work_units (run_consts_of w batches)) pu'
                    (total_convertible (run_consts_of w batches)) True])"
    using folder_loop_summaries[OF Left(4) _ _ ok] by simp
  then consider "summaries_of ev2 = []"
    | k pu' where "k < length batches"
    "summaries_of ev2 = [build_run_summary w (summaries_from self w 0 (take k batches))
         (perf_counter w Run_start) (files_left batches) pu' (convertible_total batches) True]"
    by auto
  then show ?thesis
  proof cases
    case 1
    then have "summaries_of (run self w) = []"
      unfolding Left(5) using e1 by (simp add: plain_summaries)
    with assms(2) show ?thesis by simp
  next
    case 2
    have "summaries_of (run self w)
        = [build_run_summary w (summaries_from self w 0 (take k batches))
         (perf_counter w Run_start) (files_left batches) pu' (convertible_total batches) True]"
      unfolding Left(5) using 2(2) e1 by (simp add: plain_summaries)
    then show ?thesis using 2(1) Left(1) p(1) work_units_files[OF assms(1)] assms(2)
      by (intro exI[of _ k]) auto
  qed
next
  case (Completed ev2 fs pu)
  note p = prepare_batches_props[OF assms(1)]
  have ok: "\<forall>b\<in>set batches. batch_ok b" using p(3) scanned_batch_ok by blast
  have f: "summaries_of ev2 = [] \<and> fs = [] @ summaries_from self w 0 batches"
    using folder_loop_summaries[OF Completed(4) _ _ ok] by simp
  have "list_all plain ev1" using plain_prepare_batches[of self w] assms(1) by simp
  then have "summaries_of (run self w)
        = [build_run_summary w (summaries_from self w 0 (take (length batches) batches))
         (perf_counter w Run_start) (files_left batches) pu (convertible_total batches) False]"
    unfolding Completed(5) using f by (simp add: plain_summaries)
  then show ?thesis using Completed(1) p(1) work_units_files[OF assms(1)] assms(2)
    by (intro exI[of _ "length batches"]) auto
qed

lemma summaries_from_take_nth:
  assumes "i < k" "k \<le> length bs"
  shows "summaries_from self w 0 (take k bs) ! i = folder_summary_of self w i (bs ! i)"
  using nth_summaries_from[of i "take k bs" self w 0] assms by simp

lemma folder_loop_append:
  "folder_loop self w c fi (xs @ ys) fsums pu =
     (case folder_loop self w c fi xs fsums pu of
        (None, ev) \<Rightarrow> (None, ev)
      | (Some (fs, pu'), ev) \<Rightarrow>
          (case folder_loop self w c (fi + length xs) ys fs pu' of
             (r, ev') \<Rightarrow> (r, ev @ ev')))"
proof (induction xs arbitrary: fi fsums pu)
  case Nil
  then show ?case by (simp add: case_prod_beta)
next
  case (Cons b xs)
  show ?case
  proof (cases "interruption_before_folder w fi")
    case True
    then show ?thesis by simp
  next
    case False
    obtain rp evp where pf: "process_folder self w c fsums fi b pu = (rp, evp)"
      by (cases "process_folder self w c fsums fi b pu")
    show ?thesis
    proof (cases rp)
      case Folder_left
      then show ?thesis using False pf by simp
    next
      case (Folder_done s pu')
      show ?thesis
        using False pf Folder_done Cons.IH[of "Suc fi" "fsums @ [s]" pu']
        by (simp add: case_prod_beta split: option.splits)
    qed
  qed
qed

lemma folder_loop_uninterrupted:
  assumes "folder_loop self w c fi batches fsums pu = (r, ev)"
    and "0 \<le> pu" and "pu + files_left batches \<le> total_work_units c"
    and "\<forall>b\<in>set batches. batch_ok b"
  shows "(\<forall>i<length batches. \<not> interruption_before_folder w (fi + i) \<and>
            (\<forall>j<length (convertible_images (batches ! i)).
               \<not> interruption_before_image w (fi + i) j) \<and>
            calls_return w (fi + i) (batches ! i)) \<longrightarrow> r \<noteq> None"
  using assms
proof (induction rule: folder_loop_rule)
  case (Nil fi fsums pu)
  then show ?case by simp
next
  case (Cancel fi batch rest fsums pu)
  then show ?case by (auto intro: exI[of _ 0])
next
  case (Left fi batch rest fsums pu evp)
  show ?case
  proof
    assume a: "\<forall>i<length (batch # rest). \<not> interruption_before_folder w (fi + i) \<and>
            (\<forall>j<length (convertible_images ((batch # rest) ! i)).
               \<not> interruption_before_image w (fi + i) j) \<and>
            calls_return w (fi + i) ((batch # rest) ! i)"
    have "0 < length (batch # rest)" by simp
    with a have "(\<forall>j<length (convertible_images ((batch # rest) ! 0)).
               \<not> interruption_before_image w (fi + 0) j) \<and>
            calls_return w (fi + 0) ((batch # rest) ! 0)" by blast
    then have "\<forall>j<length (convertible_images batch). \<not> interruption_before_image w fi j"
      and "calls_return w fi batch" by simp_all
    then have "Folder_left \<noteq> Folder_left"
      using process_folder_returns[OF Left(5) Left(2,3) Left(4)[unfolded batch_ok_def]] by blast
    then show "None \<noteq> None" by simp
  qed
next
  case (Step fi batch rest fsums pu pu' evp r ev')
  show ?case
  proof
    assume a: "\<forall>i<length (batch # rest). \<not> interruption_before_folder w (fi + i) \<and>
            (\<forall>j<length (convertible_images ((batch # rest) ! i)).
               \<not> interruption_before_image w (fi + i) j) \<and>
            calls_return w (fi + i) ((batch # rest) ! i)"
    have "\<forall>i<length rest. \<not> interruption_before_folder w (Suc fi + i) \<and>
            (\<forall>j<length (convertible_images (rest ! i)).
               \<not> interruption_before_image w (Suc fi + i) j) \<and>
            calls_return w (Suc fi + i) (rest ! i)"
    proof (intro allI impI)
      fix i assume "i < length rest"
      then have "Suc i < length (batch # rest)" by simp
      with a have "\<not> interruption_before_folder w (fi + Suc i) \<and>
            (\<forall>j<length (convertible_images ((batch # rest) ! Suc i)).
               \<not> interruption_before_image w (fi + Suc i) j) \<and>
            calls_return w (fi + Suc i) ((batch # rest) ! Suc i)" by blast
      then show "\<not> interruption_before_folder w (Suc fi + i) \<and>
            (\<forall>j<length (convertible_images (rest ! i)).
               \<not> interruption_before_image w (Suc fi + i) j) \<and>
            calls_return w (Suc fi + i) (rest ! i)" by simp
    qed
    with Step(11) show "r \<noteq> None" by blast
  qed
qed

lemma files_left_take_drop: "files_left (take k bs) + files_left (drop k bs) = files_left bs"
  using files_left_append[of "take k bs" "drop k bs"] by simp

lemma folder_loop_cancelled_at:
  assumes "0 \<le> pu" and "pu + files_left batches \<le> total_work_units c"
    and "\<forall>b\<in>set batches. batch_ok b"
    and "k < length batches"
    and "\<forall>i<k. \<not> interruption_before_folder w (fi + i) \<and>
            (\<forall>j<length (convertible_images (batches ! i)).
               \<not> interruption_before_image w (fi + i) j) \<and>
            calls_return w (fi + i) (batches ! i)"
    and "interruption_before_folder w (fi + k)"
  shows "\<exists>fs pu' ev.
           folder_loop self w c fi (take k batches) fsums pu = (Some (fs, pu'), ev) \<and>
           fs = fsums @ summaries_from self w fi (take k batches) \<and>
           summaries_of ev = [] \<and>
           folder_loop self w c fi batches fsums pu
             = (None, ev @ Status ''Conversion cancelled.'' # cancelled_summary w c fs pu')"
proof -
  obtain r ev where fl: "folder_loop self w c fi (take k batches) fsums pu = (r, ev)"
    by (cases "folder_loop self w c fi (take k batches) fsums pu")
  have i1: "pu + files_left (take k batches) \<le> total_work_units c"
    using assms(2) files_left_take_drop[of k batches] files_left_nonneg[of "drop k batches"]
    by linarith
  have i2: "\<forall>b\<in>set (take k batches). batch_ok b"
    using assms(3) by (meson in_set_takeD)
  have "\<forall>i<length (take k batches). \<not> interruption_before_folder w (fi + i) \<and>
            (\<forall>j<length (convertible_images (take k batches ! i)).
               \<not> interruption_before_image w (fi + i) j) \<and>
            calls_return w (fi + i) (take k batches ! i)"
    using assms(4,5) by simp
  then have "r \<noteq> None" using folder_loop_uninterrupted[OF fl assms(1) i1 i2] by blast
  then obtain fs pu' where r: "r = Some (fs, pu')" by (cases r) auto
  have s: "summaries_of ev = [] \<and> fs = fsums @ summaries_from self w fi (take k batches)"
    using folder_loop_summaries[OF fl assms(1) i1 i2] r by simp
  obtain b rest where d: "drop k batches = b # rest"
    using assms(4) by (cases "drop k batches") simp_all
  have "folder_loop self w c fi (take k batches @ drop k batches) fsums pu
        = (None, ev @ Status ''Conversion cancelled.'' # cancelled_summary w c fs pu')"
    unfolding folder_loop_append fl r d using assms(4,6) by simp
  then show ?thesis using fl r s by simp
qed

lemma sorted_append_bound:
  fixes m :: int
  assumes "sorted xs" "sorted ys" "\<forall>x\<in>set xs. x \<le> m" "\<forall>y\<in>set ys. m \<le> y"
  shows "sorted (xs @ ys)"
  using assms by (fastforce simp: sorted_append)

lemma process_folder_progress:
  assumes "process_folder self w c fsums fi batch pu = (r, ev)"
    and "0 \<le> pu"
    and "pu + int (length (all_images batch)) \<le> total_work_units c"
    and "length (convertible_images batch) \<le> length (all_images batch)"
    and "0 < total_work_units c"
  shows "sorted (progress_values ev) \<and>
         (\<forall>v\<in>set (progress_values ev). percentage pu (total_work_units c) \<le> v \<and> v \<le> 100) \<and>
         (\<forall>s pu'. r = Folder_done s pu' \<longrightarrow>
            (\<forall>v\<in>set (progress_values ev). v \<le> percentage pu' (total_work_units c)))"
  using assms(1-4)
proof (cases rule: process_folder_cases)
  case (Prepare_failed exc ev1)
  have "list_all plain ev1" using plain_prepare_output_dir[of w fi "folder batch"] Prepare_failed(1)
    by simp
  then show ?thesis unfolding Prepare_failed(3) by (simp add: plain_progress)
next
  case (Skipped ev1)
  have "list_all plain ev1" using plain_prepare_output_dir[of w fi "folder batch"] Skipped(1)
    by simp
  then show ?thesis unfolding Skipped(6) by (simp add: plain_progress plain_cleanup_dir)
next
  case (Skip_raised ev1)
  have "list_all plain ev1" using plain_prepare_output_dir[of w fi "folder batch"] Skip_raised(1)
    by simp
  then show ?thesis unfolding Skip_raised(6) by (simp add: plain_progress plain_cleanup_dir)
next
  case (Left ev1 ev2)
  have inv: "pu + int (length (convertible_images batch)) \<le> total_work_units c"
    using assms(3,4) by simp
  have p1: "list_all plain ev1" using plain_prepare_output_dir[of w fi "folder batch"] Left(1)
    by simp
  have il: "sorted (progress_values ev2) \<and>
         (\<forall>v\<in>set (progress_values ev2).
            percentage pu (total_work_units c) \<le> v \<and>
            v \<le> percentage (pu + int (length (convertible_images batch))) (total_work_units c))"
    using image_loop_progress[OF Left(3) assms(2) inv] .
  have pv: "progress_values ev = progress_values ev2"
    unfolding Left(5) using p1 by (simp add: plain_progress)
  have "\<forall>v\<in>set (progress_values ev2). v \<le> 100"
    using il percentage_le_100 by (meson order_trans)
  then show ?thesis unfolding pv using il Left(4) by simp
next
  case (Strategy_raised ev1 ev2 st)
  have inv: "pu + int (length (convertible_images batch)) \<le> total_work_units c"
    using assms(3,4) by simp
  have p1: "list_all plain ev1"
    using plain_prepare_output_dir[of w fi "folder batch"] Strategy_raised(1) by simp
  have il: "sorted (progress_values ev2) \<and>
         (\<forall>v\<in>set (progress_values ev2).
            percentage pu (total_work_units c) \<le> v \<and>
            v \<le> percentage (pu + int (length (convertible_images batch))) (total_work_units c))"
    using image_loop_progress[OF Strategy_raised(3) assms(2) inv] .
  have pv: "progress_values ev = progress_values ev2"
    unfolding Strategy_raised(6) using p1
    by (simp add: plain_progress
        plain_output_strategy[of self w fi batch "child (folder batch) OUTPUT_DIR_NAME"])
  have "\<forall>v\<in>set (progress_values ev2). v \<le> 100"
    using il percentage_le_100 by (meson order_trans)
  then show ?thesis unfolding pv using il Strategy_raised(5) by simp
next
  case (Sealed ev1 ev2 st)
  let ?t = "total_work_units c"
  let ?n = "int (length (convertible_images batch))"
  let ?a = "int (length (all_images batch))"
  have inv: "pu + ?n \<le> ?t" using assms(3,4) by simp
  have p1: "list_all plain ev1" using plain_prepare_output_dir[of w fi "folder batch"] Sealed(1)
    by simp
  have il: "sorted (progress_values ev2)"
    and ilb: "\<And>v. v \<in> set (progress_values ev2) \<Longrightarrow>
            percentage pu ?t \<le> v \<and> v \<le> percentage (pu + ?n) ?t"
    using image_loop_progress[OF Sealed(3) assms(2) inv] by blast+
  have m1: "percentage (pu + ?n) ?t \<le> percentage (pu + ?a) ?t"
    using assms(2,4,5) by (intro percentage_mono) auto
  have m0: "percentage pu ?t \<le> percentage (pu + ?a) ?t"
    using assms(2,5) by (intro percentage_mono) auto
  have pv: "progress_values ev = progress_values ev2
              @ (if 0 < skipped_units_of batch then [percentage (pu + ?a) ?t] else [])"
    unfolding Sealed(5) using p1
    by (simp add: plain_progress
        plain_output_strategy[of self w fi batch "child (folder batch) OUTPUT_DIR_NAME"])
  have ub: "\<And>v. v \<in> set (progress_values ev) \<Longrightarrow>
              percentage pu ?t \<le> v \<and> v \<le> percentage (pu + ?a) ?t"
    unfolding pv using ilb m1 m0 by (auto split: if_splits) force+
  have so: "sorted (progress_values ev)"
    unfolding pv
    by (rule sorted_append_bound[where m = "percentage (pu + ?n) ?t"])
       (use il ilb m1 in \<open>auto split: if_splits\<close>)
  have h: "\<forall>v\<in>set (progress_values ev). v \<le> 100"
    using ub percentage_le_100 by (meson order_trans)
  show ?thesis using so ub h Sealed(4) by auto
qed

lemma folder_loop_progress:
  assumes "folder_loop self w c fi batches fsums pu = (r, ev)"
    and "0 \<le> pu" and "pu + files_left batches \<le> total_work_units c"
    and "\<forall>b\<in>set batches. batch_ok b"
  shows "0 < total_work_units c \<longrightarrow>
         sorted (progress_values ev) \<and>
         (\<forall>v\<in>set (progress_values ev). percentage pu (total_work_units c) \<le> v \<and> v \<le> 100)"
  using assms
proof (induction rule: folder_loop_rule)
  case (Nil fi fsums pu)
  then show ?case by simp
next
  case (Cancel fi batch rest fsums pu)
  then show ?case by simp
next
  case (Left fi batch rest fsums pu evp)
  show ?case
    using process_folder_progress[OF Left(5) Left(2,3) Left(4)[unfolded batch_ok_def]] by blast
next
  case (Step fi batch rest fsums pu pu' evp r ev')
  show ?case
  proof
    assume t: "0 < total_work_units c"
    let ?t = "total_work_units c"
    have a: "sorted (progress_values evp)"
      and ab: "\<And>v. v \<in> set (progress_values evp) \<Longrightarrow>
                 percentage pu ?t \<le> v \<and> v \<le> 100 \<and> v \<le> percentage pu' ?t"
      using process_folder_progress[OF Step(5) Step(2,3) Step(4)[unfolded batch_ok_def] t]
      by blast+
    have b: "sorted (progress_values ev')"
      and bb: "\<And>v. v \<in> set (progress_values ev') \<Longrightarrow> percentage pu' ?t \<le> v \<and> v \<le> 100"
      using Step(11) t by blast+
    have m: "percentage pu ?t \<le> percentage pu' ?t"
      using Step(2,6) t by (intro percentage_mono) auto
    have s: "sorted (progress_values evp @ progress_values ev')"
      by (rule sorted_append_bound[where m = "percentage pu' ?t"]) (use a b ab bb in auto)
    have "\<forall>v\<in>set (progress_values evp @ progress_values ev').
            percentage pu ?t \<le> v \<and> v \<le> 100"
      using ab bb m by (auto) force+
    with s show "sorted (progress_values (evp @ ev')) \<and>
         (\<forall>v\<in>set (progress_values (evp @ ev')). percentage pu ?t \<le> v \<and> v \<le> 100)"
      by simp
  qed
qed

lemma image_loop_interrupted:
  assumes "image_loop self w c fsums batch fi outdir ii images pu st = (r, ev)"
    and "0 \<le> pu" "pu + int (length images) \<le> total_work_units c"
  shows "(\<exists>j<length images. interruption_before_image w fi (ii + j)) \<longrightarrow> r = Images_left"
  using assms
proof (induction rule: image_loop_rule)
  case (Nil ii pu st)
  then show ?case by simp
next
  case (Cancel ii source rest pu st)
  then show ?case by simp
next
  case (Step ii source rest pu st r ev3)
  show ?case
  proof
    assume "\<exists>j<length (source # rest). interruption_before_image w fi (ii + j)"
    then obtain j where j: "j < length (source # rest)" "interruption_before_image w fi (ii + j)"
      by blast
    with Step(1) have "j \<noteq> 0" by (cases j) auto
    then obtain j' where j': "j = Suc j'" by (cases j) auto
    with j have "j' < length rest" "interruption_before_image w fi (Suc ii + j')" by simp_all
    with Step(5) show "r = Images_left" by blast
  qed
qed

lemma folder_loop_units:
  assumes "folder_loop self w c fi batches fsums pu = (r, ev)"
    and "0 \<le> pu" and "pu + files_left batches \<le> total_work_units c"
    and "\<forall>b\<in>set batches. batch_ok b"
  shows "\<forall>fs pu'. r = Some (fs, pu') \<longrightarrow> pu \<le> pu' \<and> pu' \<le> pu + files_left batches"
  using assms
proof (induction rule: folder_loop_rule)
  case (Nil fi fsums pu)
  then show ?case by simp
next
  case (Cancel fi batch rest fsums pu)
  then show ?case by simp
next
  case (Left fi batch rest fsums pu evp)
  then show ?case by simp
next
  case (Step fi batch rest fsums pu pu' evp r ev')
  show ?case
  proof (intro allI impI)
    fix fs pu'' assume "r = Some (fs, pu'')"
    with Step(11) have "pu' \<le> pu'' \<and> pu'' \<le> pu' + files_left rest" by blast
    with Step(6,7) show "pu \<le> pu'' \<and> pu'' \<le> pu + files_left (batch # rest)" by simp
  qed
qed

lemma process_folder_interrupted:
  assumes "process_folder self w c fsums fi batch pu = (r, ev)"
    and "0 \<le> pu"
    and "pu + int (length (all_images batch)) \<le> total_work_units c"
    and "length (convertible_images batch) \<le> length (all_images batch)"
    and "fst (prepare_output_dir w fi (folder batch)) = Inr outdir"
    and "\<exists>j<length (convertible_images batch). interruption_before_image w fi j"
    and "\<not> isl (cleanup_exists w fi)"
  shows "r = Folder_left \<and>
    (\<exists>pu'. summaries_of ev = [build_run_summary w fsums (run_start c) (total_work_units c)
                                   pu' (total_convertible c) True])"
  using assms(1-4)
proof (cases rule: process_folder_cases)
  case (Prepare_failed exc ev1)
  with assms(5) show ?thesis by simp
next
  case (Skipped ev1)
  with assms(6) show ?thesis by simp
next
  case (Skip_raised ev1)
  with assms(6) show ?thesis by simp
next
  case (Left ev1 ev2)
  have inv: "pu + int (length (convertible_images batch)) \<le> total_work_units c"
    using assms(3,4) by simp
  obtain pu' where "summaries_of ev2
         = [build_run_summary w fsums (run_start c) (total_work_units c)
              pu' (total_convertible c) True]"
    using image_loop_left[OF Left(3) assms(2) inv] assms(7) by auto
  then show ?thesis
    using Left(1,4,5) plain_prepare_output_dir[of w fi "folder batch"]
    by (auto simp: plain_summaries)
next
  case (Strategy_raised ev1 ev2 st)
  have inv: "pu + int (length (convertible_images batch)) \<le> total_work_units c"
    using assms(3,4) by simp
  have "Images_done (pu + int (length (convertible_images batch))) st = Images_left"
    using image_loop_interrupted[OF Strategy_raised(3) assms(2) inv] assms(6) by simp
  then show ?thesis by simp
next
  case (Sealed ev1 ev2 st)
  have inv: "pu + int (length (convertible_images batch)) \<le> total_work_units c"
    using assms(3,4) by simp
  have "Images_done (pu + int (length (convertible_images batch))) st = Images_left"
    using image_loop_interrupted[OF Sealed(3) assms(2) inv] assms(6) by simp
  then show ?thesis by simp
qed

section \<open>The content of a folder summary\<close>

lemma convert_image_success:
  "subprocess_run w fi ii = Completed 0 e \<Longrightarrow>
   \<exists>a b. fst (convert_image self w fi ii source outdir) = (True, a, b, None)"
  by (simp add: convert_image_def Let_def)

lemma fold_images_success:
  assumes "\<forall>j<length images. \<exists>e. subprocess_run w fi (ii + j) = Completed 0 e"
  shows "\<exists>bo' bc'. fold_images self w fi outdir ii images (cc, bo, bc, errs)
                    = (cc + int (length images), bo', bc', errs)"
  using assms
proof (induction images arbitrary: ii cc bo bc)
  case Nil
  then show ?case by simp
next
  case (Cons source rest)
  from Cons.prems have "\<exists>e. subprocess_run w fi (ii + 0) = Completed 0 e" by blast
  then obtain e where "subprocess_run w fi ii = Completed 0 e" by auto
  then obtain a b where c: "fst (convert_image self w fi ii source outdir) = (True, a, b, None)"
    using convert_image_success by blast
  have "\<forall>j<length rest. \<exists>e. subprocess_run w fi (Suc ii + j) = Completed 0 e"
  proof (intro allI impI)
    fix j assume "j < length rest"
    then have "Suc j < length (source # rest)" by simp
    with Cons.prems have "\<exists>e. subprocess_run w fi (ii + Suc j) = Completed 0 e" by blast
    then show "\<exists>e. subprocess_run w fi (Suc ii + j) = Completed 0 e" by simp
  qed
  from Cons.IH[OF this, of "cc + 1" "bo + a" "bc + b"]
  obtain bo' bc' where "fold_images self w fi outdir (Suc ii) rest (cc + 1, bo + a, bc + b, errs)
      = (cc + 1 + int (length rest), bo', bc', errs)" by blast
  then show ?case by (simp add: c after_convert_def add.assoc)
qed

lemma folder_summary_of_success:
  assumes "fst (prepare_output_dir w fi (folder b)) = Inr outdir"
    and "convertible_images b \<noteq> [] \<or> replace_originals self"
    and "\<forall>j<length (convertible_images b). \<exists>e. subprocess_run w fi j = Completed 0 e"
    and "snd (snd (fst (output_strategy self w fi b outdir))) = []"
  shows "converted (folder_summary_of self w fi b) = int (length (convertible_images b)) \<and>
         errors (folder_summary_of self w fi b) = []"
proof -
  obtain bo' bc' where f: "fold_images self w fi outdir 0 (convertible_images b) (0, 0, 0, [])
      = (0 + int (length (convertible_images b)), bo', bc', [])"
    using fold_images_success[of "convertible_images b" w fi 0 self outdir 0 0 0 "[]"] assms(3)
    by auto
  show ?thesis
    using assms(1,2,4) f
    by (auto simp: folder_summary_of_def sealed_summary_def case_prod_beta)
qed

lemma folder_summary_of_skipped:
  assumes "fst (prepare_output_dir w fi (folder b)) = Inr outdir"
    and "convertible_images b = []" "\<not> replace_originals self"
  shows "folder_summary_of self w fi b
         = unsealed_summary w fi b (''No images to convert in '' @ name (folder b) @ '', skipping.'')"
  using assms by (simp add: folder_summary_of_def)

lemma run_folder_entry:
  assumes "prepare_batches self w = ((batches, tc, tf), ev)"
    and "s \<in> set (summaries_of (run self w))" and "i < length (folders_list s)"
  shows "\<exists>fs. folders_list s = map asdict fs \<and> i < length fs \<and> i < length batches \<and>
           fs ! i = folder_summary_of self w i (batches ! i) \<and>
           total_errors (totals s) = sum_list (map (\<lambda>f. int (length (errors f))) fs)"
proof -
  obtain k pu cn where k: "k \<le> length batches"
    "s = build_run_summary w (summaries_from self w 0 (take k batches))
           (perf_counter w Run_start) (if which_encoder w then work_units tf tc else 0)
           pu (if which_encoder w then tc else 0) cn"
    using run_summary_shape[OF assms(1,2)] by blast
  let ?fs = "summaries_from self w 0 (take k batches)"
  note s = k(2)
  have fl: "folders_list s = map asdict ?fs" by (simp add: s build_run_summary_def Let_def)
  have ik: "i < k" using assms(3) k(1) by (simp add: fl)
  have "?fs ! i = folder_summary_of self w i (batches ! i)"
    using summaries_from_take_nth[OF ik k(1)] .
  moreover have "total_errors (totals s) = sum_list (map (\<lambda>f. int (length (errors f))) ?fs)"
    by (simp add: s build_run_summary_def Let_def)
  ultimately show ?thesis using fl ik k(1) by (intro exI[of _ ?fs]) simp
qed

lemma folder_str_summary_of [simp]:
  "folder_str (folder_summary_of self w fi b) = str_path (folder b)"
  by (simp add: folder_summary_of_def unsealed_summary_def sealed_summary_def case_prod_beta
      split: sum.splits)

lemma asdict_folder [simp]: "map_of (asdict f) ''folder'' = Some (PyStr (folder_str f))"
  by (simp add: asdict_def)

section \<open>Replace mode and the archive\<close>

lemma unmarked_simps [simp]:
  "unmarked []" "unmarked (e # ev) = (\<not> archive_mark e \<and> unmarked ev)"
  "unmarked (a @ b) = (unmarked a \<and> unmarked b)"
  by (auto simp: unmarked_def)

lemma unmarked_cleanup_dir [simp]: "unmarked (cleanup_dir w fi d)"
  by (simp add: cleanup_dir_def split: option.splits sum.splits)

lemma unmarked_prepare_output_dir [simp]: "unmarked (snd (prepare_output_dir w fi fld))"
  by (simp add: prepare_output_dir_def Let_def split: option.splits sum.splits)

lemma unmarked_convert_image [simp]: "unmarked (snd (convert_image self w fi ii source outdir))"
  by (simp add: convert_image_def Let_def quote_def ENCODER_NAME_def split: proc_result.splits)

lemma unmarked_delete_originals [simp]: "unmarked (snd (delete_originals w fi ii xs))"
  by (induction xs arbitrary: ii)
     (simp_all add: Let_def case_prod_beta split: option.splits sum.splits)

lemma unmarked_move_optimized [simp]: "unmarked (snd (move_optimized w fi fld outdir j xs))"
  by (induction xs arbitrary: j) (simp_all add: Let_def case_prod_beta split: option.splits)

lemma unmarked_replace_originals_in [simp]:
  "unmarked (snd (replace_originals_in w fi batch outdir))"
  by (simp add: replace_originals_in_def Let_def case_prod_beta split: sum.splits)

lemma unmarked_prepare_batches_from [simp]:
  "unmarked (snd (prepare_batches_from self w i fs acc))"
  by (induction self w i fs acc rule: prepare_batches_from.induct)
     (simp_all add: Let_def case_prod_beta split: sum.splits)

lemma unmarked_encoder_available [simp]: "unmarked (snd (encoder_available w))"
  by (simp add: encoder_available_def)

lemma unmarked_cancelled_summary [simp]: "unmarked (cancelled_summary w c fsums pu)"
  by (simp add: cancelled_summary_def)

lemma unmarked_image_loop:
  assumes "image_loop self w c fsums batch fi outdir ii images pu st = (r, ev)"
    and "0 \<le> pu" "pu + int (length images) \<le> total_work_units c"
  shows "unmarked ev"
  using assms by (induction rule: image_loop_rule) simp_all

lemma unmarked_process_folder:
  assumes "process_folder self w c fsums fi batch pu = (r, ev)"
    and "0 \<le> pu"
    and "pu + int (length (all_images batch)) \<le> total_work_units c"
    and "length (convertible_images batch) \<le> length (all_images batch)"
    and "replace_originals self"
  shows "unmarked ev"
  using assms(1-4)
proof (cases rule: process_folder_cases)
  case (Prepare_failed exc ev1)
  have "unmarked ev1" using unmarked_prepare_output_dir[of w fi "folder batch"] Prepare_failed(1)
    by simp
  then show ?thesis unfolding Prepare_failed(3) by simp
next
  case (Skipped ev1)
  then show ?thesis using assms(5) by simp
next
  case (Skip_raised ev1)
  then show ?thesis using assms(5) by simp
next
  case (Left ev1 ev2)
  have inv: "pu + int (length (convertible_images batch)) \<le> total_work_units c"
    using assms(3,4) by simp
  have "unmarked ev1" using unmarked_prepare_output_dir[of w fi "folder batch"] Left(1) by simp
  then show ?thesis unfolding Left(5) using unmarked_image_loop[OF Left(3) assms(2) inv] by simp
next
  case (Strategy_raised ev1 ev2 st)
  have inv: "pu + int (length (convertible_images batch)) \<le> total_work_units c"
    using assms(3,4) by simp
  have "unmarked ev1"
    using unmarked_prepare_output_dir[of w fi "folder batch"] Strategy_raised(1) by simp
  moreover have "unmarked (snd (output_strategy self w fi batch
                                  (child (folder batch) OUTPUT_DIR_NAME)))"
    using assms(5) by (simp add: output_strategy_def case_prod_beta)
  ultimately show ?thesis
    unfolding Strategy_raised(6) using unmarked_image_loop[OF Strategy_raised(3) assms(2) inv]
    by simp
next
  case (Sealed ev1 ev2 st)
  have inv: "pu + int (length (convertible_images batch)) \<le> total_work_units c"
    using assms(3,4) by simp
  have "unmarked ev1" using unmarked_prepare_output_dir[of w fi "folder batch"] Sealed(1) by simp
  moreover have "unmarked (snd (output_strategy self w fi batch
                                  (child (folder batch) OUTPUT_DIR_NAME)))"
    using assms(5) by (simp add: output_strategy_def case_prod_beta)
  ultimately show ?thesis
    unfolding Sealed(5) using unmarked_image_loop[OF Sealed(3) assms(2) inv] by simp
qed

lemma unmarked_folder_loop:
  assumes "folder_loop self w c fi batches fsums pu = (r, ev)"
    and "0 \<le> pu" and "pu + files_left batches \<le> total_work_units c"
    and "\<forall>b\<in>set batches. batch_ok b"
  shows "replace_originals self \<longrightarrow> unmarked ev"
  using assms
proof (induction rule: folder_loop_rule)
  case (Nil fi fsums pu)
  then show ?case by simp
next
  case (Cancel fi batch rest fsums pu)
  then show ?case by simp
next
  case (Left fi batch rest fsums pu evp)
  show ?case
    using unmarked_process_folder[OF Left(5) Left(2,3) Left(4)[unfolded batch_ok_def]] by blast
next
  case (Step fi batch rest fsums pu pu' evp r ev')
  show ?case
    using unmarked_process_folder[OF Step(5) Step(2,3) Step(4)[unfolded batch_ok_def]] Step(11)
    by simp
qed

lemma unmarked_run:
  assumes "replace_originals self"
  shows "unmarked (run self w)"
proof -
  obtain batches tc tf ev1 where p: "prepare_batches self w = ((batches, tc, tf), ev1)"
    by (metis prod.exhaust)
  have e1: "unmarked ev1"
    using unmarked_prepare_batches_from[of self w 0 "folders self" "([], 0, 0)"]
    unfolding p[unfolded prepare_batches_def] by simp
  note q = prepare_batches_props[OF p]
  have ok: "\<forall>b\<in>set batches. batch_ok b" using q(3) scanned_batch_ok by blast
  from p show ?thesis
  proof (cases rule: run_cases)
    case No_encoder
    then show ?thesis by simp
  next
    case Scan_raised
    then show ?thesis using e1 by simp
  next
    case Nothing
    then show ?thesis using e1 by simp
  next
    case (Left ev2)
    have "unmarked ev2" using unmarked_folder_loop[OF Left(4) _ _ ok] assms by simp
    then show ?thesis unfolding Left(5) using e1 by simp
  next
    case (Completed ev2 fs pu)
    have "unmarked ev2" using unmarked_folder_loop[OF Completed(4) _ _ ok] assms by simp
    then show ?thesis unfolding Completed(5) using e1 by simp
  qed
qed

lemma folder_summary_of_replace:
  assumes "replace_originals self"
  shows "archive_path (folder_summary_of self w fi b) = None \<and>
         archive_size (folder_summary_of self w fi b) = None"
  using assms
  by (simp add: folder_summary_of_def unsealed_summary_def sealed_summary_def
      output_strategy_def case_prod_beta split: sum.splits)

lemma name_child [simp]: "name (child p n) = n"
  by (simp add: name_def child_def)

lemma not_supported_zip: "\<not> supported (child p ''.zip'')" "\<not> supported (child p ''.cbz'')"
  by (simp_all add: supported_def suffix_def rfind_def lower_def SUPPORTED_EXTENSIONS_def)

lemma not_supported_outdir: "\<not> supported (child p OUTPUT_DIR_NAME)"
  by (simp add: supported_def suffix_def rfind_def lower_def SUPPORTED_EXTENSIONS_def
      OUTPUT_DIR_NAME_def)

lemma archive_is_no_image:
  assumes "supported (child fld n)" "ext = ''.zip'' \<or> ext = ''.cbz''"
  shows "child (parent fld) (name fld @ ext) \<noteq> child fld n"
proof
  assume eq: "child (parent fld) (name fld @ ext) = child fld n"
  then have p: "butlast (parts fld) @ [name fld @ ext] = parts fld @ [n]"
    by (simp add: child_def parent_def)
  then have "length (butlast (parts fld)) = length (parts fld)"
    by (metis append1_eq_conv)
  then have e: "parts fld = []" by (cases "parts fld" rule: rev_cases) simp_all
  then have "n = ext" using p by (simp add: name_def)
  with assms show False using not_supported_zip by auto
qed

lemma outdir_holds_no_image:
  assumes "supported (child fld n)"
  shows "\<not> deletes (Rmtree (child fld OUTPUT_DIR_NAME)) (child fld n)"
proof
  assume "deletes (Rmtree (child fld OUTPUT_DIR_NAME)) (child fld n)"
  then have "n = OUTPUT_DIR_NAME" by (simp add: child_def)
  with assms show False using not_supported_outdir by simp
qed

lemma archive_event_cleanup_dir: "list_all (archive_event archive outdir) (cleanup_dir w fi outdir)"
  by (simp add: cleanup_dir_def split: option.splits sum.splits)

lemma create_archive_events:
  "list_all (archive_event (child (parent (folder b))
                              (name (folder b) @ (if use_cbz self then ''.cbz'' else ''.zip'')))
               outdir)
     (snd (create_archive self w fi b outdir))"
  by (simp add: create_archive_def Let_def archive_event_cleanup_dir
        split: option.splits sum.splits prod.splits)

lemma create_archive_keeps_images:
  assumes "scanned self b" "img \<in> set (all_images b)"
    and "e \<in> set (snd (create_archive self w fi b (child (folder b) OUTPUT_DIR_NAME)))"
  shows "\<not> deletes e img"
proof -
  obtain n where n: "img = child (folder b) n" "supported (child (folder b) n)"
    using assms(1,2) by (auto simp: scanned_def)
  let ?ext = "if use_cbz self then ''.cbz'' else ''.zip''"
  let ?archive = "child (parent (folder b)) (name (folder b) @ ?ext)"
  have a: "?archive \<noteq> img"
    unfolding n(1) by (rule archive_is_no_image[OF n(2)]) simp
  have r: "\<not> deletes (Rmtree (child (folder b) OUTPUT_DIR_NAME)) img"
    unfolding n(1) by (rule outdir_holds_no_image[OF n(2)])
  have "archive_event ?archive (child (folder b) OUTPUT_DIR_NAME) e"
    using create_archive_events[of b self "child (folder b) OUTPUT_DIR_NAME" w fi] assms(3)
    by (simp add: list_all_iff)
  then show ?thesis
    using a r by (cases e) auto
qed
section \<open>Facts about the sample run\<close>

lemma sample_batches:
  "prepare_batches sample_worker sample_world =
     (([\<lparr>folder = Path ''/'' [''pics''],
         all_images = [Path ''/'' [''pics'', ''a.png''], Path ''/'' [''pics'', ''b.jpg''],
                       Path ''/'' [''pics'', ''c.webp'']],
         convertible_images = [Path ''/'' [''pics'', ''a.png''], Path ''/'' [''pics'', ''b.jpg'']],
         skipped_webp = [Path ''/'' [''pics'', ''c.webp'']]\<rparr>,
        \<lparr>folder = Path ''/'' [''empty''], all_images = [], convertible_images = [],
         skipped_webp = []\<rparr>], 2, 3), [])"
  by code_simp

lemma sample_summaries_nonempty: "summaries_of (run sample_worker sample_world) \<noteq> []"
  by code_simp

lemma sample_two_folders:
  "length (folders_list (hd (summaries_of (run sample_worker sample_world)))) = 2"
  by code_simp

lemma sum_list_int_member:
  fixes f :: "'a \<Rightarrow> nat"
  shows "x \<in> set xs \<Longrightarrow> int (f x) \<le> sum_list (map (\<lambda>y. int (f y)) xs)"
proof (induction xs)
  case Nil
  then show ?case by simp
next
  case (Cons a xs)
  have "0 \<le> sum_list (map (\<lambda>y. int (f y)) xs)" by (rule sum_list_nonneg) auto
  with Cons show ?case by auto
qed

lemma sample_hd_member:
  "hd (summaries_of (run sample_worker sample_world))
     \<in> set (summaries_of (run sample_worker sample_world))"
  using sample_summaries_nonempty by simp

lemma cancelling_batches:
  "prepare_batches sample_worker cancelling_world =
     (([\<lparr>folder = Path ''/'' [''pics''],
         all_images = [Path ''/'' [''pics'', ''a.png''], Path ''/'' [''pics'', ''b.jpg''],
                       Path ''/'' [''pics'', ''c.webp'']],
         convertible_images = [Path ''/'' [''pics'', ''a.png''], Path ''/'' [''pics'', ''b.jpg'']],
         skipped_webp = [Path ''/'' [''pics'', ''c.webp'']]\<rparr>,
        \<lparr>folder = Path ''/'' [''empty''], all_images = [], convertible_images = [],
         skipped_webp = []\<rparr>], 2, 3), [])"
  by code_simp

lemma sample_progress: "progress_values (run sample_worker sample_world) = [33, 66, 100, 100]"
  by code_simp

lemma replacing_summaries_nonempty: "summaries_of (run replacing_worker sample_world) \<noteq> []"
  by code_simp

lemma replacing_two_folders:
  "length (folders_list (hd (summaries_of (run replacing_worker sample_world)))) = 2"
  by code_simp

lemma sample_archive_rmtree:
  "Rmtree (Path ''/'' [''pics'', ''webp_optimized''])
     \<in> set (snd (create_archive sample_worker sample_world 0
                   (hd (fst (fst (prepare_batches sample_worker sample_world))))
                   (child (folder (hd (fst (fst (prepare_batches sample_worker sample_world)))))
                      OUTPUT_DIR_NAME)))"
  by code_simp

lemma sample_first_batch:
  "hd (fst (fst (prepare_batches sample_worker sample_world)))
     \<in> set (fst (fst (prepare_batches sample_worker sample_world)))"
  "Path ''/'' [''pics'', ''a.png'']
     \<in> set (all_images (hd (fst (fst (prepare_batches sample_worker sample_world)))))"
  by code_simp+

lemma interrupting_batches:
  "prepare_batches sample_worker interrupting_world =
     (([\<lparr>folder = Path ''/'' [''pics''],
         all_images = [Path ''/'' [''pics'', ''a.png''], Path ''/'' [''pics'', ''b.jpg''],
                       Path ''/'' [''pics'', ''c.webp'']],
         convertible_images = [Path ''/'' [''pics'', ''a.png''], Path ''/'' [''pics'', ''b.jpg'']],
         skipped_webp = [Path ''/'' [''pics'', ''c.webp'']]\<rparr>,
        \<lparr>folder = Path ''/'' [''empty''], all_images = [], convertible_images = [],
         skipped_webp = []\<rparr>], 2, 3), [])"
  by code_simp

lemma webp_only_batches:
  "prepare_batches sample_worker webp_only_world =
     (([\<lparr>folder = Path ''/'' [''pics''],
         all_images = [Path ''/'' [''pics'', ''c.webp''], Path ''/'' [''pics'', ''d.webp'']],
         convertible_images = [],
         skipped_webp = [Path ''/'' [''pics'', ''c.webp''], Path ''/'' [''pics'', ''d.webp'']]\<rparr>,
        \<lparr>folder = Path ''/'' [''empty''], all_images = [], convertible_images = [],
         skipped_webp = []\<rparr>], 0, 2), [])"
  by code_simp

lemma webp_only_summaries_nonempty: "summaries_of (run sample_worker webp_only_world) \<noteq> []"
  by code_simp

section \<open>Cancellation inside a folder\<close>

text \<open>
  The check inside a folder (lines 162 to 176): when the scan returns, the calls of the
  folders before the one with index \<open>k\<close> return, and the first check that answers yes
  is one before an image of that folder, whose output directory can be asked for, the
  summary is cancelled and lists the \<open>k\<close> folders before it, with no entry for the
  folder that was being converted.
\<close>

lemma cancelled_inside_folder:
  assumes "which_encoder w"
    and "prepare_batches self w = ((batches, tc, tf), ev1)"
    and "tc \<noteq> 0" and "k < length batches"
    and "\<forall>i<k. \<not> interruption_before_folder w i \<and>
           (\<forall>j<length (convertible_images (batches ! i)). \<not> interruption_before_image w i j) \<and>
           calls_return w i (batches ! i)"
    and "\<not> interruption_before_folder w k"
    and "fst (prepare_output_dir w k (folder (batches ! k))) = Inr outdir"
    and "\<exists>j<length (convertible_images (batches ! k)). interruption_before_image w k j"
    and "\<not> raised ev1" and "\<not> isl (cleanup_exists w k)"
  shows "\<exists>s fs pu ev.
           summaries_of (run self w) = [s] \<and> cancelled s \<and>
           folder_loop self w
             \<lparr>run_start = perf_counter w Run_start, total_work_units = work_units tf tc,
              total_convertible = tc\<rparr> 0 (take k batches) [] 0 = (Some (fs, pu), ev) \<and>
           folders_list s = map asdict fs \<and> length (folders_list s) = k"
proof -
  note p = prepare_batches_props[OF assms(2)]
  have ok: "\<forall>b\<in>set batches. batch_ok b" using p(3) scanned_batch_ok by blast
  let ?c = "run_consts_of w batches"
  have c: "\<lparr>run_start = perf_counter w Run_start, total_work_units = work_units tf tc,
            total_convertible = tc\<rparr> = ?c"
    using work_units_files[OF assms(2)] p(1) by (simp add: run_consts_of_def)
  obtain r0 ev where fl: "folder_loop self w ?c 0 (take k batches) [] 0 = (r0, ev)"
    by (cases "folder_loop self w ?c 0 (take k batches) [] 0")
  have i1: "0 + files_left (take k batches) \<le> total_work_units ?c"
    using files_left_take_drop[of k batches] files_left_nonneg[of "drop k batches"] by simp
  have i2: "\<forall>b\<in>set (take k batches). batch_ok b" using ok by (meson in_set_takeD)
  have "\<forall>i<length (take k batches). \<not> interruption_before_folder w (0 + i) \<and>
            (\<forall>j<length (convertible_images (take k batches ! i)).
               \<not> interruption_before_image w (0 + i) j) \<and>
            calls_return w (0 + i) (take k batches ! i)"
    using assms(4,5) by simp
  then have "r0 \<noteq> None" using folder_loop_uninterrupted[OF fl _ i1 i2] by simp
  then obtain fs pu where r0: "r0 = Some (fs, pu)" by (cases r0) auto
  have s: "summaries_of ev = [] \<and> fs = [] @ summaries_from self w 0 (take k batches)"
    using folder_loop_summaries[OF fl _ i1 i2] r0 by simp
  have len: "length fs = k" using s assms(4) by simp
  have bounds: "0 \<le> pu \<and> pu \<le> files_left (take k batches)"
    using folder_loop_units[OF fl _ i1 i2] r0 by simp
  obtain b rest where d: "drop k batches = b # rest" "b = batches ! k"
    using assms(4) by (metis Cons_nth_drop_Suc)
  obtain rp evp where pf: "process_folder self w ?c fs k b pu = (rp, evp)"
    by (cases "process_folder self w ?c fs k b pu")
  have fl2: "files_left (take k batches) + (int (length (all_images b)) + files_left rest)
             = files_left batches"
    using files_left_take_drop[of k batches] d(1) by simp
  have b1: "pu + int (length (all_images b)) \<le> total_work_units ?c"
    using bounds fl2 files_left_nonneg[of rest] by simp
  have b2: "length (convertible_images b) \<le> length (all_images b)"
    using ok assms(4) d(2) by (simp add: batch_ok_def)
  have pi: "rp = Folder_left \<and>
      (\<exists>pu'. summaries_of evp = [build_run_summary w fs (run_start ?c)
        (total_work_units ?c) pu' (total_convertible ?c) True])"
    using process_folder_interrupted[OF pf _ b1 b2, of outdir] bounds assms(7,8,10) d(2)
    by simp
  then have left: "rp = Folder_left" by simp
  obtain pu' where sm: "summaries_of evp = [build_run_summary w fs (run_start ?c)
        (total_work_units ?c) pu' (total_convertible ?c) True]"
    using pi by blast
  have "folder_loop self w ?c 0 (take k batches @ drop k batches) [] 0 = (None, ev @ evp)"
    unfolding folder_loop_append fl r0 d(1) using assms(4,6) pf left
    by (simp add: min_absorb2)
  then have whole: "folder_loop self w ?c 0 batches [] 0 = (None, ev @ evp)" by simp
  let ?s = "build_run_summary w fs (run_start ?c) (total_work_units ?c) pu'
              (total_convertible ?c) True"
  have e1: "list_all plain ev1" using plain_prepare_batches[of self w] assms(2) by simp
  from assms(2) have "summaries_of (run self w) = [?s]"
  proof (cases rule: run_cases)
    case No_encoder
    with assms(1) show ?thesis by simp
  next
    case Scan_raised
    with assms(9) show ?thesis by simp
  next
    case Nothing
    with assms(3) p(1) show ?thesis by simp
  next
    case (Left ev2)
    have "ev2 = ev @ evp" using Left(4) whole by simp
    then show ?thesis unfolding Left(5) using e1 s sm by (simp add: plain_summaries)
  next
    case (Completed ev2 fs' pu'')
    with whole show ?thesis by simp
  qed
  then have "summaries_of (run self w) = [?s] \<and> cancelled ?s \<and>
        folder_loop self w ?c 0 (take k batches) [] 0 = (Some (fs, pu), ev) \<and>
        folders_list ?s = map asdict fs \<and> length (folders_list ?s) = k"
    using fl r0 len by (simp add: build_run_summary_def Let_def)
  then show ?thesis unfolding c by blast
qed

lemma cancelled_inside_folder_sample:
  "\<exists>s. summaries_of (run sample_worker interrupting_world) = [s] \<and> cancelled s \<and>
       folders_list s = []"
proof -
  let ?bs = "[\<lparr>folder = Path ''/'' [''pics''],
         all_images = [Path ''/'' [''pics'', ''a.png''], Path ''/'' [''pics'', ''b.jpg''],
                       Path ''/'' [''pics'', ''c.webp'']],
         convertible_images = [Path ''/'' [''pics'', ''a.png''], Path ''/'' [''pics'', ''b.jpg'']],
         skipped_webp = [Path ''/'' [''pics'', ''c.webp'']]\<rparr>,
        \<lparr>folder = Path ''/'' [''empty''], all_images = [], convertible_images = [],
         skipped_webp = []\<rparr>]"
  have a: "which_encoder interrupting_world"
    by (simp add: interrupting_world_def sample_world_def)
  have b: "(2::int) \<noteq> 0" by simp
  have k: "0 < length ?bs" by simp
  have c: "\<forall>i<0. \<not> interruption_before_folder interrupting_world i \<and>
           (\<forall>j<length (convertible_images (?bs ! i)).
              \<not> interruption_before_image interrupting_world i j) \<and>
           calls_return interrupting_world i (?bs ! i)"
    by simp
  have d: "\<not> interruption_before_folder interrupting_world 0"
    by (simp add: interrupting_world_def sample_world_def)
  have e: "fst (prepare_output_dir interrupting_world 0 (folder (?bs ! 0)))
             = Inr (Path ''/'' [''pics'', ''webp_optimized''])"
    by (simp add: prepare_output_dir_def interrupting_world_def sample_world_def
        OUTPUT_DIR_NAME_def child_def Let_def)
  have f: "\<exists>j<length (convertible_images (?bs ! 0)). interruption_before_image interrupting_world 0 j"
    by (intro exI[of _ "1::nat"]) (simp add: interrupting_world_def)
  obtain s where "summaries_of (run sample_worker interrupting_world) = [s]" "cancelled s"
      "length (folders_list s) = 0"
    using cancelled_inside_folder[OF a interrupting_batches b k c d e f]
    by (auto simp: interrupting_world_def sample_world_def)
  then show ?thesis by simp
qed

section \<open>The progress reporter\<close>

text \<open>
  C8, as the claim is written, at the input \<open>processed = 2 ^ 1024\<close> and \<open>total = 1\<close>:
  the true division raises \<^verbatim>\<open>OverflowError\<close> and no percentage is emitted.
\<close>

theorem emit_progress_overflow_counterexample:
  "emit_progress (2 ^ 1024) 1 = Inl OverflowError"
  by code_simp

text \<open>
  C8, amended: for every total that is not positive nothing is emitted; for every
  positive total and every processed from 0 up to \<open>2 ^ 1017\<close> times the total, also
  when processed exceeds the total, exactly one integer percentage between 0 and 100 is
  emitted, and it is a function of the two arguments alone.
\<close>

theorem emit_progress_range:
  "(total' \<le> 0 \<longrightarrow> emit_progress processed total' = Inr []) \<and>
   (0 < total' \<and> 0 \<le> processed \<and> processed \<le> 2 ^ 1017 * total' \<longrightarrow>
      (\<exists>v. emit_progress processed total' = Inr [Progress v] \<and> 0 \<le> v \<and> v \<le> 100))"
proof (intro conjI impI)
  assume "total' \<le> 0"
  then show "emit_progress processed total' = Inr []" by (simp add: emit_progress_def)
next
  assume a: "0 < total' \<and> 0 \<le> processed \<and> processed \<le> 2 ^ 1017 * total'"
  then have "emit_progress processed total' = Inr [Progress (percentage processed total')]"
    by (intro emit_progress_bounded) auto
  moreover have "0 \<le> percentage processed total'" using a by (intro percentage_nonneg) auto
  moreover have "percentage processed total' \<le> 100" by (rule percentage_le_100)
  ultimately show "\<exists>v. emit_progress processed total' = Inr [Progress v] \<and> 0 \<le> v \<and> v \<le> 100"
    by blast
qed

theorem emit_progress_range_witness:
  "emit_progress 5 0 = Inr [] \<and>
   (0::int) < 7 \<and> (0::int) \<le> 15 \<and> (15::int) \<le> 2 ^ 1017 * 7 \<and>
   (\<exists>v. emit_progress 15 7 = Inr [Progress v] \<and> 0 \<le> v \<and> v \<le> 100)"
  using emit_progress_range[of 0 5] emit_progress_range[of 7 15] by simp

section \<open>The encoder command\<close>

text \<open>
  C1, as the claim is written, at quality 100 and the source \<^verbatim>\<open>pics/a.png\<close>: the command
  asks for lossless encoding and still passes \<^verbatim>\<open>-q 100\<close>.
\<close>

theorem build_cwebp_command_counterexample:
  "build_cwebp_command sample_worker (Path [] [''pics'', ''a.png''])
     (Path [] [''pics'', ''webp_optimized'', ''a.webp''])
   = [''cwebp'', ''-lossless'', ''-q'', ''100'', ''pics/a.png'', ''-o'',
      ''pics/webp_optimized/a.webp'']"
  by code_simp

lemma str_int_100: "str_int 100 = ''100''"
  by code_simp

text \<open>
  C1, amended: for every source whose lower-cased extension is \<^verbatim>\<open>.png\<close> and for quality
  100, the command has \<^verbatim>\<open>-lossless\<close> right after the encoder's name, followed by
  \<^verbatim>\<open>-q 100\<close>, the source, \<^verbatim>\<open>-o\<close> and the target: lossless encoding is requested in
  addition to the numeric quality.
\<close>

theorem build_cwebp_command_lossless:
  assumes "lower (suffix source) = ''.png''" and "quality self = 100"
  shows "build_cwebp_command self source target
         = [ENCODER_NAME, ''-lossless'', ''-q'', ''100'', str_path source, ''-o'',
            str_path target]"
  using assms by (simp add: build_cwebp_command_def list_insert_def str_int_100)

theorem build_cwebp_command_lossless_witness:
  "lower (suffix (Path [] [''pics'', ''A.PNG''])) = ''.png'' \<and> quality sample_worker = 100 \<and>
   build_cwebp_command sample_worker (Path [] [''pics'', ''A.PNG''])
     (Path [] [''pics'', ''webp_optimized'', ''A.webp''])
   = [ENCODER_NAME, ''-lossless'', ''-q'', ''100'', str_path (Path [] [''pics'', ''A.PNG'']),
      ''-o'', str_path (Path [] [''pics'', ''webp_optimized'', ''A.webp''])]"
proof -
  have a: "lower (suffix (Path [] [''pics'', ''A.PNG''])) = ''.png''" by code_simp
  have b: "quality sample_worker = 100" by (simp add: sample_worker_def)
  show ?thesis using a b build_cwebp_command_lossless[OF a b] by simp
qed

section \<open>Missing encoder\<close>

text \<open>
  C4: when the encoder is not found, the run emits the diagnostic, one summary and the
  end of the run, and nothing else; the summary has no converted image, no processed
  and no total unit, is not cancelled and lists no folder.
\<close>

theorem run_without_encoder:
  assumes "\<not> which_encoder w"
  shows "\<exists>s. run self w =
               [Status (''Unable to find '' @ quote @ ENCODER_NAME @ quote
                        @ '' executable. Please install it and make sure it is on PATH.''),
                Summary_ready s, Finished] \<and>
             total_converted (totals s) = 0 \<and> processed_images s = 0 \<and> total_images s = 0 \<and>
             \<not> cancelled s \<and> folders_list s = []"
  using assms by (simp add: run_def encoder_available_def build_run_summary_def Let_def)

theorem run_without_encoder_witness:
  "\<not> which_encoder (sample_world\<lparr>which_encoder := False\<rparr>) \<and>
   (\<exists>s. run sample_worker (sample_world\<lparr>which_encoder := False\<rparr>) =
               [Status (''Unable to find '' @ quote @ ENCODER_NAME @ quote
                        @ '' executable. Please install it and make sure it is on PATH.''),
                Summary_ready s, Finished] \<and>
             total_converted (totals s) = 0 \<and> processed_images s = 0 \<and> total_images s = 0 \<and>
             \<not> cancelled s \<and> folders_list s = [])"
proof -
  have a: "\<not> which_encoder (sample_world\<lparr>which_encoder := False\<rparr>)" by simp
  show ?thesis using a run_without_encoder[OF a, of sample_worker] by blast
qed

section \<open>Bytes saved\<close>

text \<open>
  C5, as the claim is written, on the sample run: the entries of the two folders in the
  emitted summary have the nine fields of \<^verbatim>\<open>FolderSummary\<close>, and \<^verbatim>\<open>bytes_saved\<close> is not
  among them.
\<close>

theorem folder_entries_counterexample:
  "map (map fst) (concat (map folders_list (summaries_of (run sample_worker sample_world))))
   = replicate 2
       [''folder'', ''converted'', ''skipped_existing'', ''errors'', ''bytes_original'',
        ''bytes_converted'', ''archive_size'', ''archive_path'', ''duration_seconds'']"
  by code_simp

text \<open>
  C5, amended: in every summary that a run emits, the run-level \<^verbatim>\<open>bytes_saved\<close> equals
  \<^verbatim>\<open>max(0, bytes_original - bytes_converted)\<close> of the run-level totals and is not negative;
  the folder entries carry \<^verbatim>\<open>bytes_original\<close> and \<^verbatim>\<open>bytes_converted\<close> and no field
  \<^verbatim>\<open>bytes_saved\<close>.
\<close>

theorem bytes_saved_run_level:
  "\<forall>s\<in>set (summaries_of (run self w)).
     total_bytes_saved (totals s)
       = max 0 (total_bytes_original (totals s) - total_bytes_converted (totals s)) \<and>
     0 \<le> total_bytes_saved (totals s) \<and>
     (\<forall>d\<in>set (folders_list s).
        map fst d = [''folder'', ''converted'', ''skipped_existing'', ''errors'',
                     ''bytes_original'', ''bytes_converted'', ''archive_size'',
                     ''archive_path'', ''duration_seconds''])"
proof
  fix s assume s: "s \<in> set (summaries_of (run self w))"
  obtain batches tc tf ev where p: "prepare_batches self w = ((batches, tc, tf), ev)"
    by (metis prod.exhaust)
  obtain k pu cn where
    "s = build_run_summary w (summaries_from self w 0 (take k batches))
                (perf_counter w Run_start) (if which_encoder w then work_units tf tc else 0)
                pu (if which_encoder w then tc else 0) cn"
    using run_summary_shape[OF p s] by blast
  then show "total_bytes_saved (totals s)
       = max 0 (total_bytes_original (totals s) - total_bytes_converted (totals s)) \<and>
     0 \<le> total_bytes_saved (totals s) \<and>
     (\<forall>d\<in>set (folders_list s).
        map fst d = [''folder'', ''converted'', ''skipped_existing'', ''errors'',
                     ''bytes_original'', ''bytes_converted'', ''archive_size'',
                     ''archive_path'', ''duration_seconds''])"
    by (auto simp: build_run_summary_def Let_def asdict_def)
qed

theorem bytes_saved_run_level_witness:
  "hd (summaries_of (run sample_worker sample_world))
     \<in> set (summaries_of (run sample_worker sample_world)) \<and>
   total_bytes_saved (totals (hd (summaries_of (run sample_worker sample_world)))) = 120 \<and>
   total_bytes_original (totals (hd (summaries_of (run sample_worker sample_world)))) = 200 \<and>
   total_bytes_converted (totals (hd (summaries_of (run sample_worker sample_world)))) = 80"
proof -
  let ?s = "hd (summaries_of (run sample_worker sample_world))"
  have m: "?s \<in> set (summaries_of (run sample_worker sample_world))"
    using sample_summaries_nonempty by simp
  have o: "total_bytes_original (totals ?s) = 200" by code_simp
  have c: "total_bytes_converted (totals ?s) = 80" by code_simp
  have "total_bytes_saved (totals ?s)
       = max 0 (total_bytes_original (totals ?s) - total_bytes_converted (totals ?s))"
    using bytes_saved_run_level[of sample_worker sample_world] m by blast
  then show ?thesis using m o c by simp
qed

section \<open>Work units\<close>

text \<open>
  C9: after scanning, the total number of files is the sum of the batches' eligible
  images and the total convertible count the sum of their convertible images; the work
  units are the number of files when it is not zero and the convertible count
  otherwise; every batch's convertible images are among its eligible images, so in the
  second case the work units are zero.
\<close>

theorem work_units_after_scan:
  assumes "prepare_batches self w = ((batches, total_conv, total_files), ev)"
  shows "total_files = sum_list (map (\<lambda>b. int (length (all_images b))) batches) \<and>
         total_conv = sum_list (map (\<lambda>b. int (length (convertible_images b))) batches) \<and>
         (\<forall>b\<in>set batches. set (convertible_images b) \<subseteq> set (all_images b)) \<and>
         (total_files \<noteq> 0 \<longrightarrow> work_units total_files total_conv = total_files) \<and>
         (total_files = 0 \<longrightarrow>
            work_units total_files total_conv = total_conv \<and> total_conv = 0)"
proof -
  note p = prepare_batches_props[OF assms]
  have sub: "\<forall>b\<in>set batches. set (convertible_images b) \<subseteq> set (all_images b)"
    using p(3) by (auto simp: scanned_def)
  have w: "work_units total_files total_conv = files_left batches"
    using work_units_files[OF assms] .
  have ok: "\<forall>b\<in>set batches. batch_ok b" using p(3) scanned_batch_ok by blast
  have le: "convertible_total batches \<le> files_left batches" using ok by (rule convertible_le_files)
  have z: "total_files = 0 \<longrightarrow> total_conv = 0"
    using le p(1,2) convertible_total_nonneg[of batches] by simp
  show ?thesis
    using p(1,2) sub w z by (auto simp: files_left_def convertible_total_def work_units_def)
qed

theorem work_units_after_scan_witness:
  "prepare_batches sample_worker sample_world =
     (([\<lparr>folder = Path ''/'' [''pics''],
         all_images = [Path ''/'' [''pics'', ''a.png''], Path ''/'' [''pics'', ''b.jpg''],
                       Path ''/'' [''pics'', ''c.webp'']],
         convertible_images = [Path ''/'' [''pics'', ''a.png''], Path ''/'' [''pics'', ''b.jpg'']],
         skipped_webp = [Path ''/'' [''pics'', ''c.webp'']]\<rparr>,
        \<lparr>folder = Path ''/'' [''empty''], all_images = [], convertible_images = [],
         skipped_webp = []\<rparr>], 2, 3), []) \<and>
   work_units 3 2 = 3"
  using work_units_after_scan[OF sample_batches] sample_batches by simp

section \<open>Folders without convertible images\<close>

text \<open>
  C10, as the claim is written, on a run over two folders of which none has an image to
  convert, with replace-mode off: the run emits one summary, which lists no folder and
  counts no error, so the message is recorded nowhere.
\<close>

theorem skip_note_counterexample:
  "\<not> replace_originals sample_worker \<and>
   length (fst (fst (prepare_batches sample_worker webp_only_world))) = 2 \<and>
   concat (map convertible_images (fst (fst (prepare_batches sample_worker webp_only_world))))
     = [] \<and>
   length (summaries_of (run sample_worker webp_only_world)) = 1 \<and>
   concat (map folders_list (summaries_of (run sample_worker webp_only_world))) = [] \<and>
   map (total_errors \<circ> totals) (summaries_of (run sample_worker webp_only_world)) = [0]"
  by code_simp

text \<open>
  C10, amended: in every summary that a run emits, a folder that has an entry there, has
  no convertible images while replace-mode is off and whose output directory was
  prepared, has the message \<^verbatim>\<open>No images to convert in <name>, skipping.\<close> as its only
  error string; the run-level count of errors is the sum of the lengths of the folders'
  error lists, so the message is counted there. When no image of any folder is
  convertible, the summary lists no folder and counts no error.
\<close>

theorem skip_note_recorded:
  assumes "prepare_batches self w = ((batches, tc, tf), ev)"
    and "s \<in> set (summaries_of (run self w))"
  shows "(i < length (folders_list s) \<and>
          fst (prepare_output_dir w i (folder (batches ! i))) = Inr outdir \<and>
          convertible_images (batches ! i) = [] \<and> \<not> replace_originals self \<longrightarrow>
            (\<exists>fs. folders_list s = map asdict fs \<and>
               errors (fs ! i)
                 = [''No images to convert in '' @ name (folder (batches ! i))
                    @ '', skipping.''] \<and>
               total_errors (totals s) = sum_list (map (\<lambda>f. int (length (errors f))) fs) \<and>
               0 < total_errors (totals s))) \<and>
         (tc = 0 \<longrightarrow> folders_list s = [] \<and> total_errors (totals s) = 0)"
proof (intro conjI impI)
  assume a: "i < length (folders_list s) \<and>
          fst (prepare_output_dir w i (folder (batches ! i))) = Inr outdir \<and>
          convertible_images (batches ! i) = [] \<and> \<not> replace_originals self"
  obtain fs where fs: "folders_list s = map asdict fs" "i < length fs"
      "fs ! i = folder_summary_of self w i (batches ! i)"
      "total_errors (totals s) = sum_list (map (\<lambda>f. int (length (errors f))) fs)"
    using run_folder_entry[OF assms(1,2)] a by blast
  have e: "errors (fs ! i)
             = [''No images to convert in '' @ name (folder (batches ! i)) @ '', skipping.'']"
    unfolding fs(3) using folder_summary_of_skipped[of w i "batches ! i" outdir self] a
    by (simp add: unsealed_summary_def)
  have "fs ! i \<in> set fs" using fs(2) by simp
  then have "int (length (errors (fs ! i))) \<le> sum_list (map (\<lambda>f. int (length (errors f))) fs)"
    by (rule sum_list_int_member)
  then have "0 < total_errors (totals s)" unfolding fs(4) e by simp
  then show "\<exists>fs. folders_list s = map asdict fs \<and>
               errors (fs ! i)
                 = [''No images to convert in '' @ name (folder (batches ! i))
                    @ '', skipping.''] \<and>
               total_errors (totals s) = sum_list (map (\<lambda>f. int (length (errors f))) fs) \<and>
               0 < total_errors (totals s)"
    using fs(1,4) e by blast
next
  assume z: "tc = 0"
  note p = prepare_batches_props[OF assms(1)]
  have e1: "summaries_of ev = []"
    using plain_prepare_batches[of self w] assms(1) by (simp add: plain_summaries)
  from assms(1) have "folders_list s = [] \<and> total_errors (totals s) = 0"
  proof (cases rule: run_cases)
    case No_encoder
    then show ?thesis
      using assms(2)
      by (auto simp: plain_summaries[OF plain_encoder_available] build_run_summary_def Let_def)
  next
    case Scan_raised
    then show ?thesis using assms(2) e1 by simp
  next
    case Nothing
    then show ?thesis using assms(2) e1 by (auto simp: build_run_summary_def Let_def)
  next
    case (Left ev2)
    with z p(1) show ?thesis by simp
  next
    case (Completed ev2 fs pu)
    with z p(1) show ?thesis by simp
  qed
  then show "folders_list s = []" and "total_errors (totals s) = 0" by simp_all
qed

theorem skip_note_recorded_witness:
  "hd (summaries_of (run sample_worker sample_world))
     \<in> set (summaries_of (run sample_worker sample_world)) \<and>
   1 < length (folders_list (hd (summaries_of (run sample_worker sample_world)))) \<and>
   \<not> replace_originals sample_worker \<and>
   (\<exists>fs. folders_list (hd (summaries_of (run sample_worker sample_world))) = map asdict fs \<and>
      errors (fs ! 1) = [''No images to convert in empty, skipping.''] \<and>
      0 < total_errors (totals (hd (summaries_of (run sample_worker sample_world))))) \<and>
   hd (summaries_of (run sample_worker webp_only_world))
     \<in> set (summaries_of (run sample_worker webp_only_world)) \<and>
   snd (snd (fst (prepare_batches sample_worker webp_only_world))) = 2 \<and>
   fst (snd (fst (prepare_batches sample_worker webp_only_world))) = 0 \<and>
   folders_list (hd (summaries_of (run sample_worker webp_only_world))) = [] \<and>
   total_errors (totals (hd (summaries_of (run sample_worker webp_only_world)))) = 0"
proof -
  let ?s = "hd (summaries_of (run sample_worker sample_world))"
  let ?t = "hd (summaries_of (run sample_worker webp_only_world))"
  let ?b = "\<lparr>folder = Path ''/'' [''empty''], all_images = [], convertible_images = [],
             skipped_webp = []\<rparr>"
  have l: "1 < length (folders_list ?s)" by (simp add: sample_two_folders)
  have r: "\<not> replace_originals sample_worker" by (simp add: sample_worker_def)
  have p: "fst (prepare_output_dir sample_world 1 (folder ?b))
           = Inr (Path ''/'' [''empty'', ''webp_optimized''])"
    by code_simp
  have n: "name (folder ?b) = ''empty''" by code_simp
  have "\<exists>fs. folders_list ?s = map asdict fs \<and>
      errors (fs ! 1) = [''No images to convert in empty, skipping.''] \<and>
      total_errors (totals ?s) = sum_list (map (\<lambda>f. int (length (errors f))) fs) \<and>
      0 < total_errors (totals ?s)"
    using skip_note_recorded[OF sample_batches sample_hd_member,
        of 1 "Path ''/'' [''empty'', ''webp_optimized'']"] l r p n
    by simp
  then have first: "\<exists>fs. folders_list ?s = map asdict fs \<and>
      errors (fs ! 1) = [''No images to convert in empty, skipping.''] \<and>
      0 < total_errors (totals ?s)" by blast
  have m: "?t \<in> set (summaries_of (run sample_worker webp_only_world))"
    using webp_only_summaries_nonempty by simp
  have second: "folders_list ?t = [] \<and> total_errors (totals ?t) = 0"
    using skip_note_recorded[OF webp_only_batches m] by simp
  have t: "snd (snd (fst (prepare_batches sample_worker webp_only_world))) = 2"
      "fst (snd (fst (prepare_batches sample_worker webp_only_world))) = 0"
    using webp_only_batches by simp_all
  show ?thesis using first second l r m t sample_hd_member by blast
qed

section \<open>Folders whose images are all converted\<close>

text \<open>
  C6, as the claim is written, on the sample run: the second folder has no convertible
  image, no encoder invocation fails and the output strategy reports no error, yet the
  folder's list of errors is not empty.
\<close>

theorem folder_errors_counterexample:
  "convertible_images (fst (fst (prepare_batches sample_worker sample_world)) ! 1) = [] \<and>
   map_of (folders_list (hd (summaries_of (run sample_worker sample_world))) ! 1) ''converted''
     = Some (PyInt 0) \<and>
   map_of (folders_list (hd (summaries_of (run sample_worker sample_world))) ! 1) ''errors''
     = Some (PyStrList [''No images to convert in empty, skipping.''])"
  by code_simp

text \<open>
  C6, amended: for every folder with N convertible images that has an entry in an
  emitted summary and whose output directory was prepared: if N is positive or
  replace-mode is on, every encoder invocation of the folder succeeds and the output
  strategy reports no error, the entry has \<^verbatim>\<open>converted\<close> equal to N and an empty list of
  errors; if N = 0 and replace-mode is off, the entry has \<^verbatim>\<open>converted\<close> equal to 0 and
  its list of errors holds the single note \<^verbatim>\<open>No images to convert in <name>, skipping.\<close>
\<close>

theorem folder_summary_all_converted:
  assumes "prepare_batches self w = ((batches, tc, tf), ev)"
    and "s \<in> set (summaries_of (run self w))" and "i < length (folders_list s)"
    and "fst (prepare_output_dir w i (folder (batches ! i))) = Inr outdir"
  shows "((convertible_images (batches ! i) \<noteq> [] \<or> replace_originals self) \<and>
          (\<forall>j<length (convertible_images (batches ! i)).
             \<exists>e. subprocess_run w i j = Completed 0 e) \<and>
          snd (snd (fst (output_strategy self w i (batches ! i) outdir))) = [] \<longrightarrow>
            (\<exists>summary. folders_list s ! i = asdict summary \<and>
               converted summary = int (length (convertible_images (batches ! i))) \<and>
               errors summary = [])) \<and>
         (convertible_images (batches ! i) = [] \<and> \<not> replace_originals self \<longrightarrow>
            (\<exists>summary. folders_list s ! i = asdict summary \<and> converted summary = 0 \<and>
               errors summary
                 = [''No images to convert in '' @ name (folder (batches ! i))
                    @ '', skipping.'']))"
proof -
  obtain fs where fs: "folders_list s = map asdict fs" "i < length fs"
      "fs ! i = folder_summary_of self w i (batches ! i)"
    using run_folder_entry[OF assms(1-3)] by blast
  have d: "folders_list s ! i = asdict (fs ! i)" using fs(1,2) by simp
  show ?thesis
  proof (intro conjI impI)
    assume "(convertible_images (batches ! i) \<noteq> [] \<or> replace_originals self) \<and>
          (\<forall>j<length (convertible_images (batches ! i)).
             \<exists>e. subprocess_run w i j = Completed 0 e) \<and>
          snd (snd (fst (output_strategy self w i (batches ! i) outdir))) = []"
    then have "converted (folder_summary_of self w i (batches ! i))
                 = int (length (convertible_images (batches ! i))) \<and>
               errors (folder_summary_of self w i (batches ! i)) = []"
      using folder_summary_of_success[OF assms(4), of self] by blast
    then show "\<exists>summary. folders_list s ! i = asdict summary \<and>
               converted summary = int (length (convertible_images (batches ! i))) \<and>
               errors summary = []"
      using d fs(3) by metis
  next
    assume "convertible_images (batches ! i) = [] \<and> \<not> replace_originals self"
    then have "folder_summary_of self w i (batches ! i)
         = unsealed_summary w i (batches ! i)
             (''No images to convert in '' @ name (folder (batches ! i)) @ '', skipping.'')"
      using folder_summary_of_skipped[OF assms(4), of self] by blast
    then have "converted (fs ! i) = 0 \<and>
               errors (fs ! i)
                 = [''No images to convert in '' @ name (folder (batches ! i))
                    @ '', skipping.'']"
      using fs(3) by (simp add: unsealed_summary_def)
    then show "\<exists>summary. folders_list s ! i = asdict summary \<and> converted summary = 0 \<and>
               errors summary
                 = [''No images to convert in '' @ name (folder (batches ! i))
                    @ '', skipping.'']"
      using d by blast
  qed
qed

theorem folder_summary_all_converted_witness:
  "hd (summaries_of (run sample_worker sample_world))
     \<in> set (summaries_of (run sample_worker sample_world)) \<and>
   1 < length (folders_list (hd (summaries_of (run sample_worker sample_world)))) \<and>
   (\<exists>summary. folders_list (hd (summaries_of (run sample_worker sample_world))) ! 0
                = asdict summary \<and> converted summary = 2 \<and> errors summary = []) \<and>
   (\<exists>summary. folders_list (hd (summaries_of (run sample_worker sample_world))) ! 1
                = asdict summary \<and> converted summary = 0 \<and>
                errors summary = [''No images to convert in empty, skipping.''])"
proof -
  let ?s = "hd (summaries_of (run sample_worker sample_world))"
  let ?b = "\<lparr>folder = Path ''/'' [''pics''],
         all_images = [Path ''/'' [''pics'', ''a.png''], Path ''/'' [''pics'', ''b.jpg''],
                       Path ''/'' [''pics'', ''c.webp'']],
         convertible_images = [Path ''/'' [''pics'', ''a.png''], Path ''/'' [''pics'', ''b.jpg'']],
         skipped_webp = [Path ''/'' [''pics'', ''c.webp'']]\<rparr>"
  let ?e = "\<lparr>folder = Path ''/'' [''empty''], all_images = [], convertible_images = [],
             skipped_webp = []\<rparr>"
  let ?o = "Path ''/'' [''pics'', ''webp_optimized'']"
  let ?p = "Path ''/'' [''empty'', ''webp_optimized'']"
  have l: "1 < length (folders_list ?s)" by (simp add: sample_two_folders)
  have l0: "0 < length (folders_list ?s)" by (simp add: sample_two_folders)
  have p: "fst (prepare_output_dir sample_world 0 (folder ?b)) = Inr ?o" by code_simp
  have q: "fst (prepare_output_dir sample_world 1 (folder ?e)) = Inr ?p" by code_simp
  have e: "\<forall>j<length (convertible_images ?b). \<exists>e. subprocess_run sample_world 0 j = Completed 0 e"
    by (simp add: sample_world_def)
  have o: "snd (snd (fst (output_strategy sample_worker sample_world 0 ?b ?o))) = []"
    by code_simp
  have r: "\<not> replace_originals sample_worker" by (simp add: sample_worker_def)
  have n: "name (folder ?e) = ''empty''" by code_simp
  have first: "\<exists>summary. folders_list ?s ! 0 = asdict summary \<and> converted summary = 2 \<and>
          errors summary = []"
    using folder_summary_all_converted[OF sample_batches sample_hd_member l0, of ?o] p e o
    by simp
  have second: "\<exists>summary. folders_list ?s ! 1 = asdict summary \<and> converted summary = 0 \<and>
          errors summary = [''No images to convert in empty, skipping.'']"
    using folder_summary_all_converted[OF sample_batches sample_hd_member l, of ?p] q r n
    by simp
  show ?thesis using first second l sample_hd_member by blast
qed

section \<open>Cancellation between folders\<close>

text \<open>
  C3, as the claim is written, on a run over two folders of which none has an image to
  convert: cancellation is requested from the start, hence before the first folder
  begins, yet the run emits one summary and that summary is not cancelled.
\<close>

theorem cancelled_counterexample:
  "which_encoder webp_cancelling_world \<and>
   interruption_before_folder webp_cancelling_world 0 \<and>
   length (fst (fst (prepare_batches sample_worker webp_cancelling_world))) = 2 \<and>
   map cancelled (summaries_of (run sample_worker webp_cancelling_world)) = [False]"
  by code_simp

text \<open>
  C3, amended: let the encoder be found and the scan of the folders return with some
  image to convert, so that the run enters its loop over the batches; let, for the first
  \<open>k\<close> folders, the cancellation checks before and inside them answer no and the calls
  outside a handler return, and let the check before the next folder answer yes. Then
  the run emits exactly one summary; it is cancelled; its list of folders is the list
  of summaries with which the loop over those first \<open>k\<close> folders alone ends, one entry
  for each of them in order and none for the folder at which the run was cancelled.
  (Folders are counted from 0 here: the claim's folder \<open>k\<close> has index \<open>k - 1\<close>.)
\<close>

theorem cancelled_before_folder:
  assumes "which_encoder w"
    and "prepare_batches self w = ((batches, tc, tf), ev1)" and "\<not> raised ev1"
    and "tc \<noteq> 0" and "k < length batches"
    and "\<forall>i<k. \<not> interruption_before_folder w i \<and>
           (\<forall>j<length (convertible_images (batches ! i)). \<not> interruption_before_image w i j) \<and>
           calls_return w i (batches ! i)"
    and "interruption_before_folder w k"
  shows "\<exists>s fs pu ev.
           summaries_of (run self w) = [s] \<and> cancelled s \<and>
           folder_loop self w
             \<lparr>run_start = perf_counter w Run_start, total_work_units = work_units tf tc,
              total_convertible = tc\<rparr> 0 (take k batches) [] 0 = (Some (fs, pu), ev) \<and>
           folders_list s = map asdict fs \<and> length (folders_list s) = k \<and>
           processed_images s = pu \<and>
           (\<forall>i<k. map_of (folders_list s ! i) ''folder''
                     = Some (PyStr (str_path (folder (batches ! i)))))"
proof -
  note p = prepare_batches_props[OF assms(2)]
  have ok: "\<forall>b\<in>set batches. batch_ok b" using p(3) scanned_batch_ok by blast
  have c: "\<lparr>run_start = perf_counter w Run_start, total_work_units = work_units tf tc,
            total_convertible = tc\<rparr> = run_consts_of w batches"
    using work_units_files[OF assms(2)] p(1) by (simp add: run_consts_of_def)
  have i5: "\<forall>i<k. \<not> interruption_before_folder w (0 + i) \<and>
           (\<forall>j<length (convertible_images (batches ! i)).
              \<not> interruption_before_image w (0 + i) j) \<and>
           calls_return w (0 + i) (batches ! i)"
    using assms(6) by simp
  obtain fs pu' ev where f:
      "folder_loop self w (run_consts_of w batches) 0 (take k batches) [] 0 = (Some (fs, pu'), ev)"
      "fs = [] @ summaries_from self w 0 (take k batches)"
      "summaries_of ev = []"
      "folder_loop self w (run_consts_of w batches) 0 batches [] 0
         = (None, ev @ Status ''Conversion cancelled.''
                  # cancelled_summary w (run_consts_of w batches) fs pu')"
    using folder_loop_cancelled_at[of 0 batches "run_consts_of w batches" k w 0 self "[]",
        OF _ _ ok assms(5) i5] assms(7)
    by auto
  let ?s = "build_run_summary w fs (perf_counter w Run_start) (files_left batches) pu'
              (convertible_total batches) True"
  have e1: "list_all plain ev1" using plain_prepare_batches[of self w] assms(2) by simp
  from assms(2) have s: "summaries_of (run self w) = [?s]"
  proof (cases rule: run_cases)
    case No_encoder
    with assms(1) show ?thesis by simp
  next
    case Scan_raised
    with assms(3) show ?thesis by simp
  next
    case Nothing
    with assms(4) p(1) show ?thesis by simp
  next
    case (Left ev2)
    have "ev2 = ev @ Status ''Conversion cancelled.''
                  # cancelled_summary w (run_consts_of w batches) fs pu'"
      using Left(4) f(4) by simp
    then show ?thesis unfolding Left(5) using f(3) e1 by (simp add: plain_summaries)
  next
    case (Completed ev2 fs' pu)
    with f(4) show ?thesis by simp
  qed
  have len: "length fs = k" using f(2) assms(5) by simp
  have nth: "\<forall>i<k. map_of (map asdict fs ! i) ''folder''
                     = Some (PyStr (str_path (folder (batches ! i))))"
  proof (intro allI impI)
    fix i assume i: "i < k"
    have "fs ! i = folder_summary_of self w i (batches ! i)"
      using summaries_from_take_nth[OF i, of batches self w] assms(5) f(2) by simp
    then show "map_of (map asdict fs ! i) ''folder''
                     = Some (PyStr (str_path (folder (batches ! i))))"
      using i len by simp
  qed
  have "summaries_of (run self w) = [?s] \<and> cancelled ?s \<and>
        folder_loop self w
             \<lparr>run_start = perf_counter w Run_start, total_work_units = work_units tf tc,
              total_convertible = tc\<rparr> 0 (take k batches) [] 0 = (Some (fs, pu'), ev) \<and>
        folders_list ?s = map asdict fs \<and> length (folders_list ?s) = k \<and>
        processed_images ?s = pu' \<and>
        (\<forall>i<k. map_of (folders_list ?s ! i) ''folder''
                     = Some (PyStr (str_path (folder (batches ! i)))))"
    using s f(1) len nth unfolding c by (simp add: build_run_summary_def Let_def)
  then show ?thesis by blast
qed

theorem cancelled_before_folder_witness:
  "which_encoder cancelling_world \<and> \<not> raised [] \<and> (2::int) \<noteq> 0 \<and>
   \<not> interruption_before_folder cancelling_world 0 \<and>
   calls_return cancelling_world 0
     \<lparr>folder = Path ''/'' [''pics''],
      all_images = [Path ''/'' [''pics'', ''a.png''], Path ''/'' [''pics'', ''b.jpg''],
                    Path ''/'' [''pics'', ''c.webp'']],
      convertible_images = [Path ''/'' [''pics'', ''a.png''], Path ''/'' [''pics'', ''b.jpg'']],
      skipped_webp = [Path ''/'' [''pics'', ''c.webp'']]\<rparr> \<and>
   interruption_before_folder cancelling_world 1 \<and>
   (\<exists>s. summaries_of (run sample_worker cancelling_world) = [s] \<and> cancelled s \<and>
        length (folders_list s) = 1 \<and> processed_images s = 3 \<and>
        map_of (folders_list s ! 0) ''folder'' = Some (PyStr ''/pics''))"
proof -
  let ?b = "\<lparr>folder = Path ''/'' [''pics''],
         all_images = [Path ''/'' [''pics'', ''a.png''], Path ''/'' [''pics'', ''b.jpg''],
                       Path ''/'' [''pics'', ''c.webp'']],
         convertible_images = [Path ''/'' [''pics'', ''a.png''], Path ''/'' [''pics'', ''b.jpg'']],
         skipped_webp = [Path ''/'' [''pics'', ''c.webp'']]\<rparr>"
  let ?bs = "[?b,
        \<lparr>folder = Path ''/'' [''empty''], all_images = [], convertible_images = [],
         skipped_webp = []\<rparr>]"
  have a: "which_encoder cancelling_world"
    by (simp add: cancelling_world_def sample_world_def)
  have nr: "\<not> raised []" by simp
  have b: "(2::int) \<noteq> 0" by simp
  have k: "1 < length ?bs" by simp
  have cr: "calls_return cancelling_world 0 ?b"
    by (simp add: calls_return_def cancelling_world_def sample_world_def)
  have c: "\<forall>i<1. \<not> interruption_before_folder cancelling_world i \<and>
           (\<forall>j<length (convertible_images (?bs ! i)).
              \<not> interruption_before_image cancelling_world i j) \<and>
           calls_return cancelling_world i (?bs ! i)"
    using cr by (simp add: cancelling_world_def sample_world_def)
  have d: "interruption_before_folder cancelling_world 1"
    by (simp add: cancelling_world_def)
  have p: "processed_images (hd (summaries_of (run sample_worker cancelling_world))) = 3"
    by code_simp
  have n: "str_path (Path ''/'' [''pics'']) = ''/pics''" by code_simp
  obtain s where s: "summaries_of (run sample_worker cancelling_world) = [s]" "cancelled s"
      "length (folders_list s) = 1"
      "\<forall>i<1. map_of (folders_list s ! i) ''folder'' = Some (PyStr (str_path (folder (?bs ! i))))"
    using cancelled_before_folder[OF a cancelling_batches nr b k c d] by blast
  have "processed_images s = 3" using p s(1) by simp
  moreover have "map_of (folders_list s ! 0) ''folder'' = Some (PyStr ''/pics'')"
    using s(4) n by simp
  ultimately show ?thesis using a nr c cr d s(1,2,3) by auto
qed

section \<open>Progress\<close>

text \<open>
  C2: the percentages that a run emits on the progress signal, in the order of their
  emission, never decrease, and none of them exceeds 100.
\<close>

theorem progress_non_decreasing:
  "sorted (progress_values (run self w)) \<and>
   (\<forall>v\<in>set (progress_values (run self w)). v \<le> 100)"
proof -
  obtain batches tc tf ev1 where p: "prepare_batches self w = ((batches, tc, tf), ev1)"
    by (metis prod.exhaust)
  have e1: "progress_values ev1 = []"
    using plain_prepare_batches[of self w] p by (simp add: plain_progress)
  note q = prepare_batches_props[OF p]
  have ok: "\<forall>b\<in>set batches. batch_ok b" using q(3) scanned_batch_ok by blast
  from p show ?thesis
  proof (cases rule: run_cases)
    case No_encoder
    then show ?thesis by (simp add: plain_progress[OF plain_encoder_available])
  next
    case Scan_raised
    then show ?thesis using e1 by simp
  next
    case Nothing
    then show ?thesis using e1 by simp
  next
    case (Left ev2)
    have "sorted (progress_values ev2) \<and> (\<forall>v\<in>set (progress_values ev2).
            percentage 0 (total_work_units (run_consts_of w batches)) \<le> v \<and> v \<le> 100)"
      using folder_loop_progress[OF Left(4) _ _ ok] Left(3) by simp
    then show ?thesis unfolding Left(5) using e1 by simp
  next
    case (Completed ev2 fs pu)
    have l: "sorted (progress_values ev2) \<and> (\<forall>v\<in>set (progress_values ev2).
            percentage 0 (total_work_units (run_consts_of w batches)) \<le> v \<and> v \<le> 100)"
      using folder_loop_progress[OF Completed(4) _ _ ok] Completed(3) by simp
    then have "sorted (progress_values ev2 @ [100])"
      by (intro sorted_append_bound[where m = 100]) auto
    then show ?thesis unfolding Completed(5) using e1 l by simp
  qed
qed

theorem progress_non_decreasing_witness:
  "progress_values (run sample_worker sample_world) = [33, 66, 100, 100] \<and>
   sorted (progress_values (run sample_worker sample_world)) \<and>
   (66::int) \<in> set (progress_values (run sample_worker sample_world)) \<and> (66::int) \<le> 100"
  using progress_non_decreasing[of sample_worker sample_world] sample_progress by simp

section \<open>Replace mode and archives\<close>

text \<open>
  C7: when replace-originals is on, whatever the archive flag, every folder entry of
  every emitted summary has neither an archive path nor an archive size, and the trace
  of the run holds no mark of \<^verbatim>\<open>_create_archive\<close>: neither its opening status nor an
  archive write. Conversely, for every scanned batch, no event of \<^verbatim>\<open>_create_archive\<close> on
  that batch and its output directory deletes one of the batch's images.
\<close>

theorem replace_excludes_archive:
  "(replace_originals self \<longrightarrow>
      (\<forall>s\<in>set (summaries_of (run self w)). \<forall>d\<in>set (folders_list s).
         map_of d ''archive_path'' = Some PyNone \<and> map_of d ''archive_size'' = Some PyNone) \<and>
      (\<forall>e\<in>set (run self w). \<not> archive_mark e)) \<and>
   (\<forall>b\<in>set (fst (fst (prepare_batches self w))). \<forall>img\<in>set (all_images b).
      \<forall>e\<in>set (snd (create_archive self w' fi b (child (folder b) OUTPUT_DIR_NAME))).
        \<not> deletes e img)"
proof (intro conjI impI ballI)
  fix s d
  assume r: "replace_originals self" and s: "s \<in> set (summaries_of (run self w))"
    and d: "d \<in> set (folders_list s)"
  obtain batches tc tf ev where p: "prepare_batches self w = ((batches, tc, tf), ev)"
    by (metis prod.exhaust)
  obtain k pu cn where
    "s = build_run_summary w (summaries_from self w 0 (take k batches))
                (perf_counter w Run_start) (if which_encoder w then work_units tf tc else 0)
                pu (if which_encoder w then tc else 0) cn"
    using run_summary_shape[OF p s] by blast
  then have "folders_list s = map asdict (summaries_from self w 0 (take k batches))"
    by (simp add: build_run_summary_def Let_def)
  with d obtain i where i: "i < length (take k batches)"
      "d = asdict (summaries_from self w 0 (take k batches) ! i)"
    by (auto simp: in_set_conv_nth)
  have f: "summaries_from self w 0 (take k batches) ! i
           = folder_summary_of self w (0 + i) (take k batches ! i)"
    using i(1) by (rule nth_summaries_from)
  show "map_of d ''archive_path'' = Some PyNone"
    unfolding i(2) f using folder_summary_of_replace[OF r] by (simp add: asdict_def)
  show "map_of d ''archive_size'' = Some PyNone"
    unfolding i(2) f using folder_summary_of_replace[OF r] by (simp add: asdict_def)
next
  fix e assume "replace_originals self" and "e \<in> set (run self w)"
  then show "\<not> archive_mark e" using unmarked_run[of self w] by (simp add: unmarked_def)
next
  fix b img e
  assume b: "b \<in> set (fst (fst (prepare_batches self w)))" and i: "img \<in> set (all_images b)"
    and e: "e \<in> set (snd (create_archive self w' fi b (child (folder b) OUTPUT_DIR_NAME)))"
  obtain batches tc tf ev where p: "prepare_batches self w = ((batches, tc, tf), ev)"
    by (metis prod.exhaust)
  have "scanned self b" using prepare_batches_props(3)[OF p] b p by simp
  then show "\<not> deletes e img" using i e by (rule create_archive_keeps_images)
qed

theorem replace_excludes_archive_witness:
  "replace_originals replacing_worker \<and> use_cbz replacing_worker \<and>
   hd (summaries_of (run replacing_worker sample_world))
     \<in> set (summaries_of (run replacing_worker sample_world)) \<and>
   hd (folders_list (hd (summaries_of (run replacing_worker sample_world))))
     \<in> set (folders_list (hd (summaries_of (run replacing_worker sample_world)))) \<and>
   map_of (hd (folders_list (hd (summaries_of (run replacing_worker sample_world)))))
     ''archive_path'' = Some PyNone \<and>
   hd (run replacing_worker sample_world) \<in> set (run replacing_worker sample_world) \<and>
   \<not> archive_mark (hd (run replacing_worker sample_world)) \<and>
   hd (fst (fst (prepare_batches sample_worker sample_world)))
     \<in> set (fst (fst (prepare_batches sample_worker sample_world))) \<and>
   Path ''/'' [''pics'', ''a.png'']
     \<in> set (all_images (hd (fst (fst (prepare_batches sample_worker sample_world))))) \<and>
   Rmtree (Path ''/'' [''pics'', ''webp_optimized''])
     \<in> set (snd (create_archive sample_worker sample_world 0
                   (hd (fst (fst (prepare_batches sample_worker sample_world))))
                   (child (folder (hd (fst (fst (prepare_batches sample_worker sample_world)))))
                      OUTPUT_DIR_NAME))) \<and>
   \<not> deletes (Rmtree (Path ''/'' [''pics'', ''webp_optimized'']))
        (Path ''/'' [''pics'', ''a.png''])"
proof -
  let ?s = "hd (summaries_of (run replacing_worker sample_world))"
  have r: "replace_originals replacing_worker" "use_cbz replacing_worker"
    by (simp_all add: replacing_worker_def)
  have m: "?s \<in> set (summaries_of (run replacing_worker sample_world))"
    using replacing_summaries_nonempty by simp
  have "folders_list ?s \<noteq> []" using replacing_two_folders by auto
  then have d: "hd (folders_list ?s) \<in> set (folders_list ?s)" by simp
  have "run replacing_worker sample_world \<noteq> []" using replacing_summaries_nonempty by auto
  then have e: "hd (run replacing_worker sample_world) \<in> set (run replacing_worker sample_world)"
    by simp
  note t1 = replace_excludes_archive[of replacing_worker sample_world]
  note t2 = replace_excludes_archive[of sample_worker sample_world sample_world 0]
  have a: "map_of (hd (folders_list ?s)) ''archive_path'' = Some PyNone"
    using t1 r(1) m d by blast
  have b: "\<not> archive_mark (hd (run replacing_worker sample_world))"
    using t1 r(1) e by blast
  have c: "\<not> deletes (Rmtree (Path ''/'' [''pics'', ''webp_optimized'']))
             (Path ''/'' [''pics'', ''a.png''])"
    using t2 sample_first_batch sample_archive_rmtree by blast
  show ?thesis using r m d e a b c sample_first_batch sample_archive_rmtree by blast
qed

end
